theory Spec2Isabelle
  imports Main "HOL-Library.Word"
begin

unbundle bit_operations_syntax

section \<open>Data model of the LSM303D driver (lsm303d.cpp)\<close>

text \<open>
  \<open>unsigned\<close>, \<open>unsigned long\<close> and \<open>size_t\<close> are 32-bit words on the target,
  \<open>hrt_abstime\<close> is a 64-bit word. Error returns (\<open>-EINVAL\<close>, \<open>-EIO\<close>, ...) are values
  of a sum type: \<open>Inl e\<close> is the return of the negative errno \<open>-e\<close> (\<open>Inl ERROR\<close> the
  return of the constant \<open>ERROR\<close>), \<open>Inr v\<close> is every other return value \<open>v\<close>
  (\<open>OK\<close> is \<open>Inr 0\<close>).
\<close>

type_synonym u8 = "8 word"
type_synonym u32 = "32 word"
type_synonym u64 = "64 word"

datatype errno = EIO | EAGAIN | ENOMEM | EINVAL | ENOSPC | ENOTTY | ERROR

definition OK :: int where
  "OK = 0"

text \<open>
  \<open>struct accel_report\<close> (declared in drv_accel.h). The driver assigns the timestamp and
  the three raw axes; every other byte of the struct is left as it is in the slot and is
  kept here as \<open>unassigned\<close>.
\<close>

record accel_report =
  timestamp :: u64
  x_raw :: "16 word"
  y_raw :: "16 word"
  z_raw :: "16 word"
  unassigned :: "u8 list"

text \<open>
  \<open>struct hrt_call\<close>: the registration of the periodic callback with the host timer.
  \<open>armed\<close> says whether the entry is in the timer's queue, \<open>delay\<close> is the initial delay
  and \<open>period\<close> the interval of the registration, both in microseconds.
\<close>

record hrt_call =
  armed :: bool
  delay :: u64
  period :: u64

text \<open>
  The fields of \<open>class LSM303D\<close> that the modelled code reads or writes
  (\<open>reports = []\<close> is the null pointer), followed by the observable effects on the host:
  the bus transactions issued so far (the initialised bytes sent and the length of the
  exchange), the number of clock reads, the reports handed to \<open>orb_publish\<close>, the report
  handed to \<open>orb_advertise\<close>, and the number of \<open>poll_notify\<close> calls.
\<close>

record lsm303d =
  call :: hrt_call
  call_interval :: u32
  num_reports :: u32
  next_report :: u32
  oldest_report :: u32
  reports :: "accel_report list"
  spi_log :: "(u8 list \<times> nat) list"
  clock_reads :: nat
  published :: "accel_report list"
  advertised :: "accel_report list"
  poll_notifies :: nat

text \<open>
  What the host supplies. The bus transport answers a transaction, given all transactions
  issued so far (the last one is the current one), with a return code and the content of
  the exchange buffer after the call; the clock answers the k-th read. The constants of
  drv_sensor.h and the size of \<open>struct accel_report\<close> are not part of lsm303d.cpp and are
  parameters; so is the \<open>ioctl\<close> of the superclass.
\<close>

record host =
  spi_exchange :: "(u8 list \<times> nat) list \<Rightarrow> int \<times> (nat \<Rightarrow> u8)"
  hrt_clock :: "nat \<Rightarrow> u64"
  SENSOR_POLLRATE_MANUAL :: u32
  SENSOR_POLLRATE_EXTERNAL :: u32
  SENSOR_POLLRATE_MAX :: u32
  SENSOR_POLLRATE_DEFAULT :: u32
  sizeof_accel_report :: u32
  SPI_ioctl :: "int \<Rightarrow> u32 \<Rightarrow> errno + int"

text \<open>
  The case labels of a C \<open>switch\<close> are pairwise distinct, and no struct has size zero.
\<close>

definition host_ok :: "host \<Rightarrow> bool" where
  "host_ok h \<longleftrightarrow>
     distinct [SENSOR_POLLRATE_MANUAL h, SENSOR_POLLRATE_EXTERNAL h, 0,
               SENSOR_POLLRATE_MAX h, SENSOR_POLLRATE_DEFAULT h]
     \<and> 0 < sizeof_accel_report h"

subsection \<open>Register constants\<close>

definition DIR_READ :: u32 where
  "DIR_READ = push_bit 7 1"

definition DIR_WRITE :: u32 where
  "DIR_WRITE = push_bit 7 0"

definition ADDR_INCREMENT :: u32 where
  "ADDR_INCREMENT = push_bit 6 1"

definition ADDR_STATUS_A :: u32 where
  "ADDR_STATUS_A = 0x27"

definition ADDR_CTRL_REG1 :: u32 where
  "ADDR_CTRL_REG1 = 0x20"

definition REG1_RATE_100HZ_A :: u32 where
  "REG1_RATE_100HZ_A = push_bit 7 0 OR push_bit 6 1 OR push_bit 5 1 OR push_bit 4 0"

definition REG1_Z_ENABLE_A :: u32 where
  "REG1_Z_ENABLE_A = push_bit 2 1"

definition REG1_Y_ENABLE_A :: u32 where
  "REG1_Y_ENABLE_A = push_bit 1 1"

definition REG1_X_ENABLE_A :: u32 where
  "REG1_X_ENABLE_A = push_bit 0 1"

definition ADDR_WHO_AM_I :: u32 where
  "ADDR_WHO_AM_I = 0x0F"

definition WHO_I_AM :: u8 where
  "WHO_I_AM = 0x49"

section \<open>Register protocol\<close>

text \<open>
  \<open>transfer(send, recv, len)\<close> of the SPI superclass: one exchange on the bus. The
  transaction is appended to the log and the host answers it. The bytes of the send
  buffer that the caller never initialised are not part of the transaction.
\<close>

definition transfer :: "host \<Rightarrow> u8 list \<Rightarrow> nat \<Rightarrow> lsm303d \<Rightarrow> (int \<times> (nat \<Rightarrow> u8)) \<times> lsm303d" where
  "transfer h sent len s =
     (let log' = spi_log s @ [(sent, len)]
      in (spi_exchange h log', s\<lparr>spi_log := log'\<rparr>))"

text \<open>\<open>read_reg\<close>: the return code of \<open>transfer\<close> is dropped, \<open>cmd[1]\<close> is returned.\<close>

definition read_reg :: "host \<Rightarrow> u32 \<Rightarrow> lsm303d \<Rightarrow> u8 \<times> lsm303d" where
  "read_reg h reg s =
     (let cmd0 = (ucast (reg OR DIR_READ) :: u8);
          ((rc, cmd), s') = transfer h [cmd0] 2 s
      in (cmd 1, s'))"

text \<open>\<open>write_reg\<close>: no receive buffer, nothing is read back.\<close>

definition write_reg :: "host \<Rightarrow> u32 \<Rightarrow> u8 \<Rightarrow> lsm303d \<Rightarrow> lsm303d" where
  "write_reg h reg val s =
     (let cmd0 = (ucast (reg OR DIR_WRITE) :: u8);
          ((rc, cmd), s') = transfer h [cmd0, val] 2 s
      in s')"

section \<open>Device identity\<close>

definition probe :: "host \<Rightarrow> lsm303d \<Rightarrow> (errno + int) \<times> lsm303d" where
  "probe h s =
     (let (dummy, s1) = read_reg h ADDR_WHO_AM_I s;
          (who, s2) = read_reg h ADDR_WHO_AM_I s1
      in if who = WHO_I_AM then (Inr OK, s2) else (Inl EIO, s2))"

section \<open>Report ring and sampling scheduler\<close>

text \<open>The macro \<open>INCREMENT(_x, _lim)\<close>: \<open>_x++; if (_x >= _lim) _x = 0\<close>, on \<open>unsigned\<close>.\<close>

definition INCREMENT :: "u32 \<Rightarrow> u32 \<Rightarrow> u32" where
  "INCREMENT x lim = (let x' = x + 1 in if x' \<ge> lim then 0 else x')"

text \<open>
  The host timer (drv_hrt.h) is not part of lsm303d.cpp. Its two entry points record what
  the driver passes: \<open>hrt_call_every(entry, delay, interval, callout, arg)\<close> puts the
  entry in the timer's queue with that initial delay and that interval, \<open>hrt_cancel\<close>
  takes it out. The callout and its argument are always \<open>measure_trampoline\<close> and
  \<open>this\<close>.
\<close>

definition hrt_call_every :: "hrt_call \<Rightarrow> u64 \<Rightarrow> u64 \<Rightarrow> hrt_call" where
  "hrt_call_every entry dly interval = entry\<lparr>armed := True, delay := dly, period := interval\<rparr>"

definition hrt_cancel :: "hrt_call \<Rightarrow> hrt_call" where
  "hrt_cancel entry = entry\<lparr>armed := False\<rparr>"

definition hrt_absolute_time :: "host \<Rightarrow> lsm303d \<Rightarrow> u64 \<times> lsm303d" where
  "hrt_absolute_time h s = (hrt_clock h (clock_reads s), s\<lparr>clock_reads := Suc (clock_reads s)\<rparr>)"

definition poll_notify :: "lsm303d \<Rightarrow> lsm303d" where
  "poll_notify s = s\<lparr>poll_notifies := Suc (poll_notifies s)\<rparr>"

definition orb_publish :: "accel_report \<Rightarrow> lsm303d \<Rightarrow> lsm303d" where
  "orb_publish r s = s\<lparr>published := published s @ [r]\<rparr>"

definition orb_advertise :: "accel_report \<Rightarrow> lsm303d \<Rightarrow> lsm303d" where
  "orb_advertise r s = s\<lparr>advertised := advertised s @ [r]\<rparr>"

definition stop :: "lsm303d \<Rightarrow> lsm303d" where
  "stop s = s\<lparr>call := hrt_cancel (call s)\<rparr>"

definition start :: "lsm303d \<Rightarrow> lsm303d" where
  "start s =
     (let s1 = stop s;
          s2 = s1\<lparr>oldest_report := 0, next_report := 0\<rparr>
      in s2\<lparr>call := hrt_call_every (call s2) 1000 (ucast (call_interval s2))\<rparr>)"

text \<open>A 16-bit field of the packed reply struct, low byte first in memory.\<close>

definition le16 :: "u8 \<Rightarrow> u8 \<Rightarrow> 16 word" where
  "le16 lo hi = push_bit 8 (ucast hi) OR ucast lo"

text \<open>
  \<open>measure\<close>. The reply struct is packed: \<open>cmd\<close> at byte 0, \<open>status\<close> at byte 1, then
  \<open>x\<close>, \<open>y\<close>, \<open>z\<close> at bytes 2-3, 4-5, 6-7. Only \<open>cmd\<close> is initialised before the
  exchange. The return code of \<open>transfer\<close> is not looked at. Writing through
  \<open>&_reports[_next_report]\<close> outside the array has no defined result: \<open>None\<close>.
  The performance counter (\<open>perf_begin\<close>, \<open>perf_end\<close>) is left out.
\<close>

definition measure :: "host \<Rightarrow> lsm303d \<Rightarrow> lsm303d option" where
  "measure h s =
     (let slot = unat (next_report s) in
      if slot < length (reports s) then
        let cmd0 = (ucast (ADDR_STATUS_A OR DIR_READ OR ADDR_INCREMENT) :: u8);
            ((rc, raw), s1) = transfer h [cmd0] 8 s;
            (now, s2) = hrt_absolute_time h s1;
            report = (reports s2 ! slot)\<lparr>timestamp := now,
                        x_raw := le16 (raw 2) (raw 3),
                        y_raw := le16 (raw 4) (raw 5),
                        z_raw := le16 (raw 6) (raw 7)\<rparr>;
            s3 = s2\<lparr>reports := (reports s2)[slot := report]\<rparr>;
            s4 = s3\<lparr>next_report := INCREMENT (next_report s3) (num_reports s3)\<rparr>;
            s5 = (if next_report s4 = oldest_report s4
                  then s4\<lparr>oldest_report := INCREMENT (oldest_report s4) (num_reports s4)\<rparr>
                  else s4);
            s6 = poll_notify s5
        in Some (orb_publish report s6)
      else None)"

section \<open>Control surface\<close>

text \<open>
  The loop \<open>while (count--)\<close> of \<open>read\<close>, on the driver, the caller's buffer (an array of
  report slots) and \<open>ret\<close>. Every \<open>memcpy\<close> has the destination \<open>buffer\<close>, the start of
  the caller's buffer. \<open>sz\<close> is \<open>sizeof(struct accel_report)\<close>. Reading
  \<open>_reports + _oldest_report\<close> outside the array has no defined result.
\<close>

fun read_loop :: "int \<Rightarrow> nat \<Rightarrow> lsm303d \<times> accel_report list \<times> int \<Rightarrow> (lsm303d \<times> accel_report list \<times> int) option" where
  "read_loop sz 0 st = Some st"
| "read_loop sz (Suc count) (s, buffer, ret) =
     (if oldest_report s \<noteq> next_report s then
        (if unat (oldest_report s) < length (reports s) then
           read_loop sz count
             (s\<lparr>oldest_report := INCREMENT (oldest_report s) (num_reports s)\<rparr>,
              buffer[0 := reports s ! unat (oldest_report s)],
              ret + sz)
         else None)
      else read_loop sz count (s, buffer, ret))"

text \<open>
  \<open>read(filp, buffer, buflen)\<close>: the result is the return value, the caller's buffer
  after the call and the driver. The caller's buffer holds \<open>buflen\<close> bytes, that is
  \<open>buflen / sizeof(struct accel_report)\<close> report slots.
\<close>

definition read :: "host \<Rightarrow> accel_report list \<Rightarrow> u32 \<Rightarrow> lsm303d \<Rightarrow> ((errno + int) \<times> accel_report list \<times> lsm303d) option" where
  "read h buffer buflen s =
     (let count = buflen div sizeof_accel_report h in
      if count < 1 then Some (Inl ENOSPC, buffer, s)
      else if call_interval s > 0 then
        (case read_loop (uint (sizeof_accel_report h)) (unat count) (s, buffer, 0) of
           None \<Rightarrow> None
         | Some (s', buffer', ret) \<Rightarrow>
             Some (if ret \<noteq> 0 then Inr ret else Inl EAGAIN, buffer', s'))
      else
        (case measure h (s\<lparr>oldest_report := 0, next_report := 0\<rparr>) of
           None \<Rightarrow> None
         | Some s' \<Rightarrow>
             (case reports s' of
                [] \<Rightarrow> None
              | r # _ \<Rightarrow> Some (Inr (uint (sizeof_accel_report h)), buffer[0 := r], s'))))"

text \<open>
  The command codes of drv_sensor.h that \<open>ioctl\<close> has a case for, pairwise distinct as
  case labels are; \<open>OTHER c\<close> is any other code \<open>c\<close>, passed on to the superclass.
\<close>

datatype ioctl_cmd =
    SENSORIOCSPOLLRATE
  | SENSORIOCGPOLLRATE
  | SENSORIOCSQUEUEDEPTH
  | SENSORIOCGQUEUEDEPTH
  | SENSORIOCRESET
  | OTHER int

text \<open>
  \<open>ioctl(filp, cmd, arg)\<close>. \<open>alloc\<close> is what \<open>new struct accel_report[arg]\<close> gives when
  it is reached: \<open>None\<close> for the null pointer, otherwise the (uninitialised) content of
  the new array by index. The case \<open>SENSOR_POLLRATE_MAX\<close>/\<open>SENSOR_POLLRATE_DEFAULT\<close>
  calls \<open>ioctl\<close> again; \<open>None\<close> is a call that does not return.
\<close>

partial_function (option) ioctl ::
  "host \<Rightarrow> (nat \<Rightarrow> accel_report) option \<Rightarrow> ioctl_cmd \<Rightarrow> u32 \<Rightarrow> lsm303d \<Rightarrow> ((errno + int) \<times> lsm303d) option" where
  "ioctl h alloc cmd arg s =
     (case cmd of
        SENSORIOCSPOLLRATE \<Rightarrow>
          (if arg = SENSOR_POLLRATE_MANUAL h then
             Some (Inr OK, (stop s)\<lparr>call_interval := 0\<rparr>)
           else if arg = SENSOR_POLLRATE_EXTERNAL h \<or> arg = 0 then
             Some (Inl EINVAL, s)
           else if arg = SENSOR_POLLRATE_MAX h \<or> arg = SENSOR_POLLRATE_DEFAULT h then
             ioctl h alloc SENSORIOCSPOLLRATE 250 s
           else
             (let want_start = (call_interval s = 0);
                  ticks = 1000000 div arg
              in if ticks < 1000 then Some (Inl EINVAL, s)
                 else
                   (let s1 = s\<lparr>call := (call s)\<lparr>period := ucast ticks\<rparr>, call_interval := ticks\<rparr>
                    in Some (Inr OK, if want_start then start s1 else s1))))
      | SENSORIOCGPOLLRATE \<Rightarrow>
          (if call_interval s = 0 then Some (Inr (sint (SENSOR_POLLRATE_MANUAL h)), s)
           else Some (Inr (sint (1000000 div call_interval s)), s))
      | SENSORIOCSQUEUEDEPTH \<Rightarrow>
          (let arg' = arg + 1
           in if arg' < 2 \<or> arg' > 100 then Some (Inl EINVAL, s)
              else
                (case alloc of
                   None \<Rightarrow> Some (Inl ENOMEM, s)
                 | Some buf \<Rightarrow>
                     (let s1 = stop s;
                          s2 = s1\<lparr>num_reports := arg', reports := map buf [0..<unat arg']\<rparr>
                      in Some (Inr OK, start s2))))
      | SENSORIOCGQUEUEDEPTH \<Rightarrow> Some (Inr (sint (num_reports s - 1)), s)
      | SENSORIOCRESET \<Rightarrow> Some (Inl EINVAL, s)
      | OTHER c \<Rightarrow> Some (SPI_ioctl h c arg, s))"

section \<open>Construction and initialisation\<close>

text \<open>The constructor: the timer entry has never been registered.\<close>

definition LSM303D :: lsm303d where
  "LSM303D =
     \<lparr>call = \<lparr>armed = False, delay = 0, period = 0\<rparr>,
      call_interval = 0, num_reports = 0, next_report = 0, oldest_report = 0,
      reports = [], spi_log = [], clock_reads = 0, published = [], advertised = [],
      poll_notifies = 0\<rparr>"

text \<open>
  Modelled from the spec: \<open>SPI::init\<close> of the superclass is not part of lsm303d.cpp;
  it runs \<open>probe\<close>, and initialisation does not succeed when the probe fails.
\<close>

definition SPI_init :: "host \<Rightarrow> lsm303d \<Rightarrow> (errno + int) \<times> lsm303d" where
  "SPI_init h s = probe h s"

definition set_range :: "u32 \<Rightarrow> lsm303d \<Rightarrow> int \<times> lsm303d" where
  "set_range max_dps s = (OK, s)"

definition set_samplerate :: "u32 \<Rightarrow> lsm303d \<Rightarrow> int \<times> lsm303d" where
  "set_samplerate frequency s = (OK, s)"

text \<open>\<open>memset(&_reports[0], 0, sizeof(_reports[0]))\<close>.\<close>

definition memset_zero :: "accel_report \<Rightarrow> accel_report" where
  "memset_zero r =
     \<lparr>timestamp = 0, x_raw = 0, y_raw = 0, z_raw = 0,
      unassigned = map (\<lambda>b. 0) (unassigned r)\<rparr>"

definition init :: "host \<Rightarrow> (nat \<Rightarrow> accel_report) option \<Rightarrow> lsm303d \<Rightarrow> (errno + int) \<times> lsm303d" where
  "init h alloc s =
     (let (r, s0) = SPI_init h s in
      if r \<noteq> Inr OK then (Inl ERROR, s0)
      else
        (let s1 = s0\<lparr>num_reports := 2\<rparr>;
             s2 = s1\<lparr>next_report := 0\<rparr>;
             s3 = s2\<lparr>oldest_report := next_report s2\<rparr>;
             s4 = s3\<lparr>reports := (case alloc of None \<Rightarrow> []
                                  | Some buf \<Rightarrow> map buf [0..<unat (num_reports s3)])\<rparr>
         in case reports s4 of
              [] \<Rightarrow> (Inl ERROR, s4)
            | r0 # rs \<Rightarrow>
                (let s5 = s4\<lparr>reports := memset_zero r0 # rs\<rparr>;
                     s6 = orb_advertise (memset_zero r0) s5;
                     s7 = write_reg h ADDR_CTRL_REG1
                            (ucast (REG1_RATE_100HZ_A OR REG1_X_ENABLE_A OR REG1_Y_ENABLE_A OR REG1_Z_ENABLE_A)) s6;
                     (r1, s8) = set_range 500 s7;
                     (r2, s9) = set_samplerate 0 s8
                 in (Inr OK, s9))))"

section \<open>Runs of the driver\<close>

text \<open>
  The operations a run is made of: a \<open>read\<close> by a consumer, a tick of the timer
  (\<open>measure_trampoline\<close> calls \<open>measure\<close>), \<open>start\<close>, \<open>stop\<close> and an \<open>ioctl\<close>.
\<close>

datatype operation =
    Read "accel_report list" u32
  | Measure
  | Start
  | Stop
  | Ioctl "(nat \<Rightarrow> accel_report) option" ioctl_cmd u32

fun exec :: "host \<Rightarrow> operation \<Rightarrow> lsm303d \<Rightarrow> lsm303d option" where
  "exec h (Read buffer buflen) s = map_option (\<lambda>(r, b, s'). s') (read h buffer buflen s)"
| "exec h Measure s = measure h s"
| "exec h Start s = Some (start s)"
| "exec h Stop s = Some (stop s)"
| "exec h (Ioctl alloc cmd arg) s = map_option snd (ioctl h alloc cmd arg s)"

text \<open>The states of a run: after a successful \<open>init\<close> of a new driver, then any operations.\<close>

inductive reachable :: "host \<Rightarrow> lsm303d \<Rightarrow> bool" for h :: host where
  reachable_init: "init h alloc LSM303D = (Inr OK, s) \<Longrightarrow> reachable h s"
| reachable_step: "reachable h s \<Longrightarrow> exec h opn s = Some s' \<Longrightarrow> reachable h s'"

text \<open>A sequence of operations, stopping at the first one without a defined result.\<close>

fun run :: "host \<Rightarrow> operation list \<Rightarrow> lsm303d \<Rightarrow> lsm303d option" where
  "run h [] s = Some s"
| "run h (opn # opns) s = (case exec h opn s of None \<Rightarrow> None | Some s' \<Rightarrow> run h opns s')"

section \<open>Example hosts and states\<close>

text \<open>
  A host with the given bus transport, a clock that advances 1000 microseconds per read,
  four distinct poll-rate constants above every accepted rate, and 40-byte reports.
\<close>

definition host_of :: "((u8 list \<times> nat) list \<Rightarrow> int \<times> (nat \<Rightarrow> u8)) \<Rightarrow> host" where
  "host_of bus =
     \<lparr>spi_exchange = bus, hrt_clock = (\<lambda>k. 1000 * of_nat k),
      SENSOR_POLLRATE_MANUAL = 1000000, SENSOR_POLLRATE_EXTERNAL = 1000001,
      SENSOR_POLLRATE_MAX = 1000002, SENSOR_POLLRATE_DEFAULT = 1000003,
      sizeof_accel_report = 40, SPI_ioctl = (\<lambda>c a. Inl ENOTTY)\<rparr>"

text \<open>A bus that answers the k-th exchange (counted from 1) with the byte \<open>f k\<close>.\<close>

definition bus_seq :: "(nat \<Rightarrow> u8) \<Rightarrow> (u8 list \<times> nat) list \<Rightarrow> int \<times> (nat \<Rightarrow> u8)" where
  "bus_seq f = (\<lambda>log. (0, \<lambda>i. f (length log)))"

text \<open>
  A bus that answers the second exchange with the identity byte and fills the buffer of
  every other exchange, the k-th, with the byte k; and a bus that works like a given one
  for the first \<open>n\<close> exchanges and fails from then on (return code -1, buffer zero).
\<close>

definition probing_bus :: "(u8 list \<times> nat) list \<Rightarrow> int \<times> (nat \<Rightarrow> u8)" where
  "probing_bus = bus_seq (\<lambda>k. if k = 2 then 0x49 else of_nat k)"

definition failing_after ::
  "nat \<Rightarrow> ((u8 list \<times> nat) list \<Rightarrow> int \<times> (nat \<Rightarrow> u8)) \<Rightarrow> (u8 list \<times> nat) list \<Rightarrow> int \<times> (nat \<Rightarrow> u8)" where
  "failing_after n bus = (\<lambda>log. if length log \<le> n then bus log else (- 1, \<lambda>i. 0))"

definition probing_host :: host where
  "probing_host = host_of probing_bus"

definition failing_host :: host where
  "failing_host = host_of (failing_after 4 probing_bus)"

text \<open>
  The transactions of \<open>read_reg(ADDR_WHO_AM_I)\<close>, of \<open>measure\<close> and of the
  \<open>write_reg\<close> in \<open>init\<close>.
\<close>

definition who_tx :: "u8 list \<times> nat" where
  "who_tx = ([0x8F], 2)"

definition accel_tx :: "u8 list \<times> nat" where
  "accel_tx = ([0xE7], 8)"

definition ctrl_tx :: "u8 list \<times> nat" where
  "ctrl_tx = ([0x20, 0x67], 2)"

text \<open>
  A report with the given timestamp and raw axes, and the content of a newly allocated
  report array.
\<close>

definition report_at :: "u64 \<Rightarrow> 16 word \<Rightarrow> accel_report" where
  "report_at t v = \<lparr>timestamp = t, x_raw = v, y_raw = v, z_raw = v, unassigned = []\<rparr>"

definition blank_ring :: "nat \<Rightarrow> accel_report" where
  "blank_ring = (\<lambda>i. report_at 0 0)"

text \<open>The driver as \<open>init\<close> leaves it on these hosts: stopped, two slots.\<close>

definition idle_driver :: lsm303d where
  "idle_driver =
     \<lparr>call = \<lparr>armed = False, delay = 0, period = 0\<rparr>,
      call_interval = 0, num_reports = 2, next_report = 0, oldest_report = 0,
      reports = [report_at 0 0, report_at 0 0],
      spi_log = [who_tx, who_tx, ctrl_tx], clock_reads = 0, published = [],
      advertised = [report_at 0 0], poll_notifies = 0\<rparr>"

text \<open>Then with a queue depth of 2 (three slots) and a poll rate of 250 Hz.\<close>

definition started_driver :: lsm303d where
  "started_driver =
     \<lparr>call = \<lparr>armed = True, delay = 1000, period = 4000\<rparr>,
      call_interval = 4000, num_reports = 3, next_report = 0, oldest_report = 0,
      reports = [report_at 0 0, report_at 0 0, report_at 0 0],
      spi_log = [who_tx, who_tx, ctrl_tx], clock_reads = 0, published = [],
      advertised = [report_at 0 0], poll_notifies = 0\<rparr>"

text \<open>Then after one tick: one unread report in slot 0, the write cursor on slot 1.\<close>

definition running_driver :: lsm303d where
  "running_driver =
     \<lparr>call = \<lparr>armed = True, delay = 1000, period = 4000\<rparr>,
      call_interval = 4000, num_reports = 3, next_report = 1, oldest_report = 0,
      reports = [report_at 0 1028, report_at 0 0, report_at 0 0],
      spi_log = [who_tx, who_tx, ctrl_tx, accel_tx], clock_reads = 1,
      published = [report_at 0 1028],
      advertised = [report_at 0 0], poll_notifies = 1\<rparr>"

text \<open>Then after two more ticks: the first report is dropped, two are unread.\<close>

definition sampled_driver :: lsm303d where
  "sampled_driver =
     \<lparr>call = \<lparr>armed = True, delay = 1000, period = 4000\<rparr>,
      call_interval = 4000, num_reports = 3, next_report = 0, oldest_report = 1,
      reports = [report_at 0 1028, report_at 1000 1285, report_at 2000 1542],
      spi_log = [who_tx, who_tx, ctrl_tx, accel_tx, accel_tx, accel_tx], clock_reads = 3,
      published = [report_at 0 1028, report_at 1000 1285, report_at 2000 1542],
      advertised = [report_at 0 0], poll_notifies = 3\<rparr>"

text \<open>
  The running driver switched to manual mode: the ring still holds the unread report.
\<close>

definition manual_driver :: lsm303d where
  "manual_driver =
     \<lparr>call = \<lparr>armed = False, delay = 1000, period = 4000\<rparr>,
      call_interval = 0, num_reports = 3, next_report = 1, oldest_report = 0,
      reports = [report_at 0 1028, report_at 0 0, report_at 0 0],
      spi_log = [who_tx, who_tx, ctrl_tx, accel_tx], clock_reads = 1,
      published = [report_at 0 1028],
      advertised = [report_at 0 0], poll_notifies = 1\<rparr>"

text \<open>The operations that lead from \<open>idle_driver\<close> to the states above.\<close>

definition configure_ops :: "operation list" where
  "configure_ops =
     [Ioctl (Some blank_ring) SENSORIOCSQUEUEDEPTH 2, Ioctl None SENSORIOCSPOLLRATE 250]"

definition sampling_ops :: "operation list" where
  "sampling_ops = configure_ops @ [Measure, Measure, Measure]"

section \<open>Closed forms used in the proofs\<close>

text \<open>
  The report that \<open>measure\<close> builds in state \<open>s\<close>, and the state it leaves when the
  write cursor is inside the array.
\<close>

definition fresh_report :: "host \<Rightarrow> lsm303d \<Rightarrow> accel_report" where
  "fresh_report h s =
     (let raw = snd (spi_exchange h (spi_log s @ [accel_tx]))
      in (reports s ! unat (next_report s))\<lparr>timestamp := hrt_clock h (clock_reads s),
            x_raw := le16 (raw 2) (raw 3),
            y_raw := le16 (raw 4) (raw 5),
            z_raw := le16 (raw 6) (raw 7)\<rparr>)"

definition after_measure :: "host \<Rightarrow> lsm303d \<Rightarrow> lsm303d" where
  "after_measure h s =
     s\<lparr>reports := (reports s)[unat (next_report s) := fresh_report h s],
       next_report := INCREMENT (next_report s) (num_reports s),
       oldest_report := (if INCREMENT (next_report s) (num_reports s) = oldest_report s
                         then INCREMENT (oldest_report s) (num_reports s) else oldest_report s),
       spi_log := spi_log s @ [accel_tx],
       clock_reads := Suc (clock_reads s),
       published := published s @ [fresh_report h s],
       poll_notifies := Suc (poll_notifies s)\<rparr>"

text \<open>
  The ring is well formed: the array has \<open>_num_reports\<close> slots and both cursors index
  into it.
\<close>

definition ring_ok :: "lsm303d \<Rightarrow> bool" where
  "ring_ok s \<longleftrightarrow>
     length (reports s) = unat (num_reports s)
     \<and> next_report s < num_reports s \<and> oldest_report s < num_reports s"

text \<open>
  The unread reports of the ring, oldest first: the slots from the read cursor up to, not
  including, the write cursor, going round the array. \<open>ring_count\<close> is their number and
  \<open>ring_slots\<close> their indices, for a ring of \<open>N\<close> slots with read cursor \<open>ol\<close> and
  write cursor \<open>nx\<close>.
\<close>

definition ring_count :: "nat \<Rightarrow> nat \<Rightarrow> nat \<Rightarrow> nat" where
  "ring_count N ol nx = (nx + N - ol) mod N"

definition ring_slots :: "nat \<Rightarrow> nat \<Rightarrow> nat \<Rightarrow> nat list" where
  "ring_slots N ol nx = map (\<lambda>k. (ol + k) mod N) [0..<ring_count N ol nx]"

definition unread :: "lsm303d \<Rightarrow> accel_report list" where
  "unread s =
     map (\<lambda>i. reports s ! i)
       (ring_slots (unat (num_reports s)) (unat (oldest_report s)) (unat (next_report s)))"

section \<open>Helper facts\<close>

lemma read_reg_who:
  "read_reg h ADDR_WHO_AM_I s =
     (snd (spi_exchange h (spi_log s @ [who_tx])) 1, s\<lparr>spi_log := spi_log s @ [who_tx]\<rparr>)"
  by (simp add: read_reg_def transfer_def ADDR_WHO_AM_I_def DIR_READ_def who_tx_def Let_def
      split: prod.splits)

lemma unat_inc: "unat (x + 1) = (if x = - 1 then 0 else Suc (unat x))" for x :: u32
proof (cases "x = - 1")
  case True
  then show ?thesis by simp
next
  case False
  then have "1 + x \<noteq> 0"
    using max_word_wrap [of x] by (auto simp add: add.commute)
  then have "unat (1 + x) = Suc (unat x)"
    by (rule unatSuc)
  with False show ?thesis by (simp add: add.commute)
qed

lemma unat_max_u32: "unat (- 1 :: u32) = 4294967295"
  by (simp add: unsigned_minus_1_eq_mask mask_eq_exp_minus_1)

lemma depth_range: "(n + 1 < 2 \<or> n + 1 > 100) \<longleftrightarrow> (n < 1 \<or> 99 < n)" for n :: u32
  by (auto simp add: word_less_nat_alt unat_inc unat_max_u32)

lemma unat_depth: "1 \<le> n \<Longrightarrow> n \<le> 99 \<Longrightarrow> unat (n + 1) = Suc (unat n)" for n :: u32
  by (simp add: word_le_nat_alt unat_word_ariths)

lemma ioctl_SQUEUEDEPTH:
  "ioctl h alloc SENSORIOCSQUEUEDEPTH n s =
     (if n < 1 \<or> 99 < n then Some (Inl EINVAL, s)
      else case alloc of
             None \<Rightarrow> Some (Inl ENOMEM, s)
           | Some buf \<Rightarrow>
               Some (Inr OK, start ((stop s)\<lparr>num_reports := n + 1, reports := map buf [0..<unat (n + 1)]\<rparr>)))"
  by (subst ioctl.simps) (simp add: depth_range Let_def split: option.splits)

lemma ioctl_GQUEUEDEPTH:
  "ioctl h alloc SENSORIOCGQUEUEDEPTH arg s = Some (Inr (sint (num_reports s - 1)), s)"
  by (subst ioctl.simps) simp

lemma sint_depth: "n \<le> 99 \<Longrightarrow> sint n = uint n" for n :: u32
proof -
  assume "n \<le> 99"
  then have a: "uint n \<le> 99"
    by (simp add: word_le_def)
  have lo: "- (2 ^ 31) \<le> uint n"
    by (rule order_trans [of _ 0]) simp_all
  have hi: "uint n < 2 ^ 31"
    using a by simp
  have "signed_take_bit 31 (uint n) = uint n"
    using lo hi by (rule signed_take_bit_int_eq_self)
  then show ?thesis by (simp add: sint_uint)
qed

lemma probe_state: "snd (probe h s) = s\<lparr>spi_log := spi_log s @ [who_tx, who_tx]\<rparr>"
  by (simp add: probe_def read_reg_who)

lemma write_reg_state:
  "write_reg h reg v s = s\<lparr>spi_log := spi_log s @ [([ucast (reg OR DIR_WRITE), v], 2)]\<rparr>"
  by (simp add: write_reg_def transfer_def Let_def split: prod.splits)

lemma upt_two: "[0..<2] = [0, Suc 0]"
  by (simp add: upt_rec)

lemma accel_cmd: "(ucast (ADDR_STATUS_A OR DIR_READ OR ADDR_INCREMENT) :: u8) = 0xE7"
  by (simp add: ADDR_STATUS_A_def DIR_READ_def ADDR_INCREMENT_def)

lemma measure_eq:
  "measure h s =
     (if unat (next_report s) < length (reports s) then Some (after_measure h s) else None)"
  by (simp add: measure_def transfer_def hrt_absolute_time_def poll_notify_def orb_publish_def
        accel_cmd accel_tx_def fresh_report_def after_measure_def Let_def split: prod.splits)

lemma ticks_floor: "r \<noteq> 0 \<Longrightarrow> (1000000 div r < 1000) \<longleftrightarrow> (1000 < r)" for r :: u32
proof -
  assume "r \<noteq> 0"
  then have pos: "0 < unat r"
    by (simp add: unat_gt_0)
  have "unat (1000000 div r) = 1000000 div unat r"
    by (simp add: unat_div)
  moreover have "(1000000 div unat r < 1000) \<longleftrightarrow> (1000 < unat r)"
    using pos by (simp add: div_less_iff_less_mult)
  ultimately show ?thesis
    by (simp add: word_less_nat_alt)
qed

lemma ioctl_SPOLLRATE_MANUAL:
  "ioctl h alloc SENSORIOCSPOLLRATE (SENSOR_POLLRATE_MANUAL h) s =
     Some (Inr OK, (stop s)\<lparr>call_interval := 0\<rparr>)"
  by (subst ioctl.simps) simp

lemma ioctl_SPOLLRATE_zero:
  "SENSOR_POLLRATE_MANUAL h \<noteq> 0 \<Longrightarrow> ioctl h alloc SENSORIOCSPOLLRATE 0 s = Some (Inl EINVAL, s)"
  by (subst ioctl.simps) simp

lemma ioctl_SPOLLRATE_numeric:
  assumes "r \<notin> {SENSOR_POLLRATE_MANUAL h, SENSOR_POLLRATE_EXTERNAL h, 0,
                  SENSOR_POLLRATE_MAX h, SENSOR_POLLRATE_DEFAULT h}"
  shows "ioctl h alloc SENSORIOCSPOLLRATE r s =
           (if 1000 < r then Some (Inl EINVAL, s)
            else Some (Inr OK,
              if call_interval s = 0
              then start (s\<lparr>call := (call s)\<lparr>period := ucast (1000000 div r)\<rparr>,
                            call_interval := 1000000 div r\<rparr>)
              else s\<lparr>call := (call s)\<lparr>period := ucast (1000000 div r)\<rparr>,
                     call_interval := 1000000 div r\<rparr>))"
proof -
  have "r \<noteq> 0" using assms by simp
  then have "(1000000 div r < 1000) \<longleftrightarrow> (1000 < r)"
    by (rule ticks_floor)
  then show ?thesis
    using assms by (subst ioctl.simps) (simp add: Let_def)
qed

lemma ioctl_SPOLLRATE_DEFAULT:
  assumes "host_ok h"
    and "arg = SENSOR_POLLRATE_MAX h \<or> arg = SENSOR_POLLRATE_DEFAULT h"
  shows "ioctl h alloc SENSORIOCSPOLLRATE arg s = ioctl h alloc SENSORIOCSPOLLRATE 250 s"
  using assms by (subst ioctl.simps) (auto simp add: host_ok_def)

lemma count_ge_1: "0 < sz \<Longrightarrow> sz \<le> buflen \<Longrightarrow> \<not> buflen div sz < 1" for sz :: u32
proof -
  assume "0 < sz" and "sz \<le> buflen"
  then have "0 < unat sz" and "unat sz \<le> unat buflen"
    by (simp_all add: word_less_nat_alt word_le_nat_alt)
  then have "0 < unat buflen div unat sz"
    by (simp add: div_greater_zero_iff)
  then have "0 < unat (buflen div sz)"
    by (simp add: unat_div)
  then show ?thesis
    by (simp add: word_less_nat_alt)
qed

lemma INCREMENT_less: "0 < lim \<Longrightarrow> INCREMENT x lim < lim"
  by (simp add: INCREMENT_def Let_def not_le)

lemma ring_ok_pos: "ring_ok s \<Longrightarrow> 0 < num_reports s"
  by (auto simp add: ring_ok_def word_gt_0)

lemma ring_ok_slot: "ring_ok s \<Longrightarrow> unat (next_report s) < length (reports s)"
  by (simp add: ring_ok_def word_less_nat_alt)

lemma ring_ok_oldest_slot: "ring_ok s \<Longrightarrow> unat (oldest_report s) < length (reports s)"
  by (simp add: ring_ok_def word_less_nat_alt)

lemma ring_ok_nonempty: "ring_ok s \<Longrightarrow> reports s \<noteq> []"
proof -
  assume a: "ring_ok s"
  then have "num_reports s \<noteq> 0"
    using ring_ok_pos [of s] by auto
  then have "0 < unat (num_reports s)"
    by (simp add: unat_gt_0)
  with a show ?thesis
    by (auto simp add: ring_ok_def)
qed

lemma after_measure_ok: "ring_ok s \<Longrightarrow> ring_ok (after_measure h s)"
  using ring_ok_pos [of s]
  by (simp add: ring_ok_def after_measure_def INCREMENT_less)

lemma measure_ok: "ring_ok s \<Longrightarrow> measure h s = Some (after_measure h s)"
  by (simp add: measure_eq ring_ok_slot)

lemma start_ok: "0 < num_reports s \<Longrightarrow> length (reports s) = unat (num_reports s) \<Longrightarrow> ring_ok (start s)"
  by (simp add: ring_ok_def start_def stop_def Let_def)

lemma start_ring_ok:
  assumes "ring_ok s"
  shows "ring_ok (start s)"
proof (rule start_ok)
  show "0 < num_reports s"
    using assms by (rule ring_ok_pos)
  show "length (reports s) = unat (num_reports s)"
    using assms by (simp add: ring_ok_def)
qed

lemma stop_ok: "ring_ok s \<Longrightarrow> ring_ok (stop s)"
  by (simp add: ring_ok_def stop_def)

lemma read_loop_ok:
  "ring_ok s \<Longrightarrow> \<exists>s' b r. read_loop sz n (s, buf, ret) = Some (s', b, r) \<and> ring_ok s'"
proof (induction n arbitrary: s buf ret)
  case 0
  then show ?case by simp
next
  case (Suc n)
  have "ring_ok (s\<lparr>oldest_report := INCREMENT (oldest_report s) (num_reports s)\<rparr>)"
    using Suc.prems ring_ok_pos [of s] by (simp add: ring_ok_def INCREMENT_less)
  then show ?case
    using Suc.IH Suc.prems by (simp add: ring_ok_oldest_slot)
qed

lemma read_ok:
  assumes "ring_ok s"
  shows "\<exists>r b s'. read h buffer buflen s = Some (r, b, s') \<and> ring_ok s'"
proof -
  obtain s1 b1 r1 where loop:
    "read_loop (uint (sizeof_accel_report h)) (unat (buflen div sizeof_accel_report h)) (s, buffer, 0)
       = Some (s1, b1, r1)" "ring_ok s1"
    using read_loop_ok [OF assms] by blast
  have zero: "ring_ok (s\<lparr>oldest_report := 0, next_report := 0\<rparr>)"
    using assms ring_ok_pos [of s] by (simp add: ring_ok_def)
  have ne: "reports (after_measure h (s\<lparr>oldest_report := 0, next_report := 0\<rparr>)) \<noteq> []"
    using after_measure_ok [OF zero, of h] by (rule ring_ok_nonempty)
  show ?thesis
    using assms loop zero ne after_measure_ok [OF zero, of h]
    by (auto simp add: read_def Let_def measure_ok split: list.splits)
qed

lemma ioctl_ok:
  "ioctl h alloc cmd arg s = Some y \<Longrightarrow> ring_ok s \<longrightarrow> ring_ok (snd y)"
proof (induction rule: ioctl.raw_induct [rotated 1, consumes 1])
  case (1 ioctl' h alloc cmd arg s y)
  show ?case
  proof
    assume ok: "ring_ok s"
    have pos: "0 < num_reports s" and len: "length (reports s) = unat (num_reports s)"
      using ok ring_ok_pos [of s] by (simp_all add: ring_ok_def)
    have st: "\<And>c i. ring_ok (start (s\<lparr>call := c, call_interval := i\<rparr>))"
      using pos len by (intro start_ok) simp_all
    have sq: "\<And>buf. \<not> (arg + 1 < 2 \<or> 100 < arg + 1) \<Longrightarrow>
                ring_ok (start ((stop s)\<lparr>num_reports := arg + 1, reports := map buf [0..<unat (arg + 1)]\<rparr>))"
      by (intro start_ok) (auto simp add: stop_def not_less word_gt_0)
    show "ring_ok (snd y)"
    proof (cases cmd)
      case SENSORIOCSPOLLRATE
      then show ?thesis
        using 1 ok st stop_ok [OF ok]
        by (auto simp add: Let_def ring_ok_def stop_def split: if_splits)
    next
      case SENSORIOCSQUEUEDEPTH
      then show ?thesis
        using 1(2) ok sq
        by (auto simp add: Let_def split: if_splits option.splits)
    qed (use 1(2) ok in \<open>auto split: if_splits\<close>)
  qed
qed

lemma init_eq:
  "init h alloc s =
     (if fst (probe h s) \<noteq> Inr OK then (Inl ERROR, snd (probe h s))
      else case alloc of
             None \<Rightarrow> (Inl ERROR, (snd (probe h s))\<lparr>num_reports := 2, next_report := 0,
                                     oldest_report := 0, reports := []\<rparr>)
           | Some buf \<Rightarrow>
               (Inr OK, write_reg h ADDR_CTRL_REG1 0x67
                  (orb_advertise (memset_zero (buf 0))
                     ((snd (probe h s))\<lparr>num_reports := 2, next_report := 0, oldest_report := 0,
                        reports := [memset_zero (buf 0), buf 1]\<rparr>))))"
proof -
  have reg: "(ucast (REG1_RATE_100HZ_A OR REG1_X_ENABLE_A OR REG1_Y_ENABLE_A OR REG1_Z_ENABLE_A) :: u8) = 0x67"
    by (simp add: REG1_RATE_100HZ_A_def REG1_X_ENABLE_A_def REG1_Y_ENABLE_A_def REG1_Z_ENABLE_A_def)
  show ?thesis
    by (cases "probe h s"; cases alloc)
       (simp_all add: init_def SPI_init_def reg upt_two set_range_def set_samplerate_def
          orb_advertise_def Let_def)
qed

lemma init_ok: "init h alloc LSM303D = (Inr OK, s) \<Longrightarrow> ring_ok s"
  by (cases alloc)
     (auto simp add: init_eq probe_state write_reg_state orb_advertise_def ring_ok_def LSM303D_def
        split: if_splits)

lemma exec_ok: "ring_ok s \<Longrightarrow> exec h opn s = Some s' \<Longrightarrow> ring_ok s'"
proof (cases opn)
  case (Read buffer buflen)
  assume "ring_ok s" and "exec h opn s = Some s'"
  then show ?thesis
    using Read read_ok [of s h buffer buflen] by auto
next
  case Measure
  assume "ring_ok s" and "exec h opn s = Some s'"
  then show ?thesis
    using Measure by (auto simp add: measure_ok after_measure_ok)
next
  case Start
  assume "ring_ok s" and "exec h opn s = Some s'"
  then show ?thesis
    using Start by (auto simp add: start_ring_ok)
next
  case Stop
  assume "ring_ok s" and "exec h opn s = Some s'"
  then show ?thesis
    using Stop by (auto simp add: stop_ok)
next
  case (Ioctl alloc cmd arg)
  assume "ring_ok s" and "exec h opn s = Some s'"
  then show ?thesis
    using Ioctl ioctl_ok [of h alloc cmd arg s] by auto
qed

lemma reachable_ok: "reachable h s \<Longrightarrow> ring_ok s"
  by (induction rule: reachable.induct) (auto intro: init_ok exec_ok)

lemma run_append:
  "run h (xs @ ys) s = (case run h xs s of None \<Rightarrow> None | Some s' \<Rightarrow> run h ys s')"
  by (induction xs arbitrary: s) (auto split: option.splits)

lemma run_reachable: "reachable h s \<Longrightarrow> run h opns s = Some s' \<Longrightarrow> reachable h s'"
proof (induction opns arbitrary: s)
  case Nil
  then show ?case by simp
next
  case (Cons opn opns)
  then obtain s1 where "exec h opn s = Some s1" and "run h opns s1 = Some s'"
    by (auto split: option.splits)
  then show ?case
    using Cons.IH Cons.prems(1) reachable_step by blast
qed

lemma INCREMENT_ring3: "INCREMENT 0 3 = 1" "INCREMENT 1 3 = 2" "INCREMENT 2 3 = 0"
  by (simp_all add: INCREMENT_def word_le_nat_alt)

lemma failing_agree: "length log \<le> 4 \<Longrightarrow> failing_after 4 probing_bus log = probing_bus log"
  by (simp add: failing_after_def)

lemma host_of_250:
  "(250 :: u32) \<notin> {SENSOR_POLLRATE_MANUAL (host_of b), SENSOR_POLLRATE_EXTERNAL (host_of b), 0,
        SENSOR_POLLRATE_MAX (host_of b), SENSOR_POLLRATE_DEFAULT (host_of b)}"
  by (simp add: host_of_def)

lemma boot:
  assumes "\<And>log. length log \<le> 4 \<Longrightarrow> b log = probing_bus log"
  shows "init (host_of b) (Some blank_ring) LSM303D = (Inr OK, idle_driver)"
proof -
  have "b [who_tx, who_tx] = probing_bus [who_tx, who_tx]"
    by (rule assms) simp
  then have who: "snd (b [who_tx, who_tx]) (Suc 0) = 0x49"
    by (simp add: probing_bus_def bus_seq_def)
  have sent: "spi_exchange (host_of b) = b"
    by (simp add: host_of_def)
  show ?thesis
    by (simp add: init_eq probe_def read_reg_who write_reg_state orb_advertise_def WHO_I_AM_def
          sent who LSM303D_def blank_ring_def memset_zero_def report_at_def ADDR_CTRL_REG1_def
          DIR_WRITE_def ctrl_tx_def idle_driver_def)
qed

lemma configure: "run (host_of b) configure_ops idle_driver = Some started_driver"
proof -
  have three: "[0..<3] = [0, 1, 2 :: nat]"
    by (simp add: upt_rec)
  have ticks: "(1000000 :: u32) div 250 = 4000"
    by simp
  show ?thesis
    by (simp add: configure_ops_def ioctl_SQUEUEDEPTH ioctl_SPOLLRATE_numeric [OF host_of_250]
          three ticks start_def stop_def hrt_call_every_def hrt_cancel_def blank_ring_def
          idle_driver_def started_driver_def)
qed

lemma first_tick:
  assumes "\<And>log. length log \<le> 4 \<Longrightarrow> b log = probing_bus log"
  shows "run (host_of b) [Measure] started_driver = Some running_driver"
proof -
  have "b [who_tx, who_tx, ctrl_tx, accel_tx] = probing_bus [who_tx, who_tx, ctrl_tx, accel_tx]"
    by (rule assms) simp
  then have raw: "snd (b [who_tx, who_tx, ctrl_tx, accel_tx]) = (\<lambda>i. 4)"
    by (simp add: probing_bus_def bus_seq_def)
  have sent: "spi_exchange (host_of b) = b" and clock: "hrt_clock (host_of b) 0 = 0"
    by (simp_all add: host_of_def)
  show ?thesis
    by (simp add: measure_eq after_measure_def fresh_report_def started_driver_def
          running_driver_def sent clock raw INCREMENT_ring3 le16_def report_at_def)
qed

lemma more_ticks: "run probing_host [Measure, Measure] running_driver = Some sampled_driver"
  by (simp add: measure_eq after_measure_def fresh_report_def running_driver_def
        sampled_driver_def probing_host_def probing_bus_def host_of_def bus_seq_def
        INCREMENT_ring3 le16_def report_at_def)

lemma to_manual:
  "run (host_of b) [Ioctl None SENSORIOCSPOLLRATE 1000000] running_driver = Some manual_driver"
proof -
  have "ioctl (host_of b) None SENSORIOCSPOLLRATE (SENSOR_POLLRATE_MANUAL (host_of b)) running_driver
          = Some (Inr OK, manual_driver)"
    by (simp add: ioctl_SPOLLRATE_MANUAL stop_def hrt_cancel_def running_driver_def manual_driver_def)
  then show ?thesis
    by (simp add: host_of_def)
qed

lemma idle_reachable:
  assumes "\<And>log. length log \<le> 4 \<Longrightarrow> b log = probing_bus log"
  shows "reachable (host_of b) idle_driver"
  using boot [OF assms] by (rule reachable_init)

lemma running_reachable:
  assumes "\<And>log. length log \<le> 4 \<Longrightarrow> b log = probing_bus log"
  shows "reachable (host_of b) running_driver"
proof -
  have "reachable (host_of b) started_driver"
    using idle_reachable [OF assms] configure by (rule run_reachable)
  then show ?thesis
    using first_tick [OF assms] by (rule run_reachable)
qed

lemma probing_running: "reachable probing_host running_driver"
  unfolding probing_host_def by (rule running_reachable) simp

lemma failing_running: "reachable failing_host running_driver"
  unfolding failing_host_def by (rule running_reachable) (rule failing_agree)

lemma probing_idle: "reachable probing_host idle_driver"
  unfolding probing_host_def by (rule idle_reachable) simp

lemma probing_sampled: "reachable probing_host sampled_driver"
  using probing_running more_ticks by (rule run_reachable)

lemma probing_manual: "reachable probing_host manual_driver"
  using probing_running to_manual [of probing_bus]
  unfolding probing_host_def by (rule run_reachable)

lemma probing_host_ok: "host_ok probing_host"
  by (simp add: host_ok_def probing_host_def host_of_def)

section \<open>Device identity\<close>

text \<open>
  C8. \<open>probe\<close> issues exactly two reads of the identity register. Its result is \<open>OK\<close>
  when the byte returned by the second read is \<open>0x49\<close> and \<open>-EIO\<close> for every other
  byte, zero included; the byte returned by the first read is not used.
\<close>

theorem probe_checks_second_read:
  "probe h s =
     (if snd (spi_exchange h (spi_log s @ [who_tx, who_tx])) 1 = 0x49 then Inr OK else Inl EIO,
      s\<lparr>spi_log := spi_log s @ [who_tx, who_tx]\<rparr>)"
  by (simp add: probe_def read_reg_who WHO_I_AM_def)

theorem probe_checks_second_read_witness:
  "probe (host_of (bus_seq (\<lambda>k. if k = 1 then 0x49 else 0))) LSM303D
     = (Inl EIO, LSM303D\<lparr>spi_log := [who_tx, who_tx]\<rparr>)
   \<and> probe (host_of (bus_seq (\<lambda>k. if k = 2 then 0x49 else 0))) LSM303D
     = (Inr OK, LSM303D\<lparr>spi_log := [who_tx, who_tx]\<rparr>)"
  using probe_checks_second_read [of "host_of (bus_seq (\<lambda>k. if k = 1 then 0x49 else 0))" LSM303D]
        probe_checks_second_read [of "host_of (bus_seq (\<lambda>k. if k = 2 then 0x49 else 0))" LSM303D]
  by (simp add: host_of_def bus_seq_def LSM303D_def)

section \<open>Queue depth\<close>

text \<open>
  C6. \<open>ioctl(SENSORIOCSQUEUEDEPTH, n)\<close> returns \<open>-EINVAL\<close> when \<open>n\<close> is outside 1..99
  (whatever the allocator would do) and \<open>-ENOMEM\<close> when \<open>n\<close> is in 1..99 and the
  allocation gives the null pointer; in both cases the whole driver state, the ring, its
  cursors and the timer registration included, is the one before the call.
\<close>

theorem setQueueDepth_failure_keeps_state:
  "(n < 1 \<or> 99 < n \<longrightarrow> ioctl h alloc SENSORIOCSQUEUEDEPTH n s = Some (Inl EINVAL, s))
   \<and> (1 \<le> n \<and> n \<le> 99 \<longrightarrow> ioctl h None SENSORIOCSQUEUEDEPTH n s = Some (Inl ENOMEM, s))"
  by (auto simp add: ioctl_SQUEUEDEPTH)

theorem setQueueDepth_failure_keeps_state_witness:
  "((100 :: u32) < 1 \<or> (99 :: u32) < 100)
   \<and> ioctl probing_host (Some blank_ring) SENSORIOCSQUEUEDEPTH 100 running_driver
       = Some (Inl EINVAL, running_driver)
   \<and> ((1 :: u32) \<le> 5 \<and> (5 :: u32) \<le> 99)
   \<and> ioctl probing_host None SENSORIOCSQUEUEDEPTH 5 running_driver
       = Some (Inl ENOMEM, running_driver)"
  using setQueueDepth_failure_keeps_state [of 100 probing_host "Some blank_ring" running_driver]
        setQueueDepth_failure_keeps_state [of 5 probing_host "Some blank_ring" running_driver]
  by simp

text \<open>
  C9. For \<open>n\<close> in 1..99 and a successful allocation, \<open>ioctl(SENSORIOCSQUEUEDEPTH, n)\<close>
  returns \<open>OK\<close> and leaves a ring of \<open>n + 1\<close> slots, and \<open>ioctl(SENSORIOCGQUEUEDEPTH)\<close>
  in the resulting state returns \<open>n\<close> and changes nothing.
\<close>

theorem queue_depth_round_trip:
  assumes "1 \<le> n" and "n \<le> 99"
  shows "\<exists>s'. ioctl h (Some buf) SENSORIOCSQUEUEDEPTH n s = Some (Inr OK, s')
           \<and> num_reports s' = n + 1
           \<and> length (reports s') = unat n + 1
           \<and> ioctl h alloc' SENSORIOCGQUEUEDEPTH arg' s' = Some (Inr (uint n), s')"
proof -
  have "n \<noteq> 0" and "\<not> 99 < n"
    using assms by auto
  then show ?thesis
    using assms
    by (simp add: ioctl_SQUEUEDEPTH ioctl_GQUEUEDEPTH sint_depth unat_depth start_def stop_def Let_def)
qed

theorem queue_depth_round_trip_witness:
  "(1 :: u32) \<le> 5 \<and> (5 :: u32) \<le> 99
   \<and> (\<exists>s'. ioctl probing_host (Some blank_ring) SENSORIOCSQUEUEDEPTH 5 running_driver
              = Some (Inr OK, s')
            \<and> num_reports s' = 6
            \<and> length (reports s') = 6
            \<and> ioctl probing_host None SENSORIOCGQUEUEDEPTH 0 s' = Some (Inr 5, s'))"
  using queue_depth_round_trip [of 5 probing_host blank_ring running_driver None 0]
  by simp

section \<open>Sampling scheduler\<close>

text \<open>
  C4, as the claim states it, fails: with a configured interval of 4000 microseconds the
  initial delay that \<open>start\<close> passes to the host timer is not the interval.
\<close>

theorem start_first_tick_counterexample:
  "reachable probing_host running_driver
   \<and> call_interval running_driver = 4000
   \<and> delay (call (start running_driver)) \<noteq> ucast (call_interval (start running_driver))"
  using probing_running
  by (simp add: start_def stop_def hrt_call_every_def hrt_cancel_def running_driver_def)

text \<open>
  C4, amended. From every state \<open>start\<close> registers the callback with an initial delay of
  1000 microseconds and a period equal to the configured interval, and resets both
  cursors to zero.
\<close>

theorem start_registration:
  "call (start s) = (call s)\<lparr>armed := True, delay := 1000, period := ucast (call_interval s)\<rparr>
   \<and> call_interval (start s) = call_interval s
   \<and> oldest_report (start s) = 0 \<and> next_report (start s) = 0"
  by (simp add: start_def stop_def hrt_call_every_def hrt_cancel_def Let_def)

text \<open>
  C7. For a rate \<open>r\<close> that is none of the special values, the interval
  \<open>1000000 / r\<close> is below 1000 exactly when \<open>r\<close> is above 1000; then
  \<open>ioctl(SENSORIOCSPOLLRATE, r)\<close> returns \<open>-EINVAL\<close> and the state is the one before
  the call. For every other such \<open>r\<close> the call returns \<open>OK\<close> with the interval set to
  \<open>1000000 / r\<close>; when the interval was 0 before (scheduler stopped) \<open>start\<close> has
  run and the timer entry is registered with that period, otherwise only the interval
  and the period of the entry change.
\<close>

theorem setPollRate_numeric:
  assumes "r \<notin> {SENSOR_POLLRATE_MANUAL h, SENSOR_POLLRATE_EXTERNAL h, 0,
                  SENSOR_POLLRATE_MAX h, SENSOR_POLLRATE_DEFAULT h}"
  shows "(1000000 div r < 1000 \<longleftrightarrow> 1000 < r)
         \<and> (1000 < r \<longrightarrow> ioctl h alloc SENSORIOCSPOLLRATE r s = Some (Inl EINVAL, s))
         \<and> (r \<le> 1000 \<and> call_interval s = 0 \<longrightarrow>
              (\<exists>s'. ioctl h alloc SENSORIOCSPOLLRATE r s = Some (Inr OK, s')
                 \<and> s' = start (s\<lparr>call := (call s)\<lparr>period := ucast (1000000 div r)\<rparr>,
                                  call_interval := 1000000 div r\<rparr>)
                 \<and> armed (call s') \<and> period (call s') = ucast (1000000 div r)
                 \<and> call_interval s' = 1000000 div r \<and> 1000 \<le> call_interval s'))
         \<and> (r \<le> 1000 \<and> call_interval s \<noteq> 0 \<longrightarrow>
              ioctl h alloc SENSORIOCSPOLLRATE r s
                = Some (Inr OK, s\<lparr>call := (call s)\<lparr>period := ucast (1000000 div r)\<rparr>,
                                  call_interval := 1000000 div r\<rparr>))"
proof -
  have nz: "r \<noteq> 0" using assms by simp
  have floor: "(1000000 div r < 1000) \<longleftrightarrow> (1000 < r)"
    using nz by (rule ticks_floor)
  then have acc: "r \<le> 1000 \<Longrightarrow> 1000 \<le> 1000000 div r"
    by (simp add: not_less [symmetric])
  show ?thesis
    using floor acc
    by (auto simp add: ioctl_SPOLLRATE_numeric [OF assms] start_def stop_def hrt_call_every_def
          hrt_cancel_def Let_def)
qed

theorem setPollRate_numeric_witness:
  "(2000 :: u32) \<notin> {SENSOR_POLLRATE_MANUAL probing_host, SENSOR_POLLRATE_EXTERNAL probing_host, 0,
        SENSOR_POLLRATE_MAX probing_host, SENSOR_POLLRATE_DEFAULT probing_host}
   \<and> (1000 :: u32) < 2000
   \<and> ioctl probing_host None SENSORIOCSPOLLRATE 2000 running_driver
       = Some (Inl EINVAL, running_driver)
   \<and> (250 :: u32) \<le> 1000 \<and> call_interval idle_driver = 0
   \<and> ioctl probing_host None SENSORIOCSPOLLRATE 250 idle_driver
       = Some (Inr OK, idle_driver\<lparr>call := \<lparr>armed = True, delay = 1000, period = 4000\<rparr>,
                                     call_interval := 4000\<rparr>)
   \<and> call_interval running_driver = 4000
   \<and> ioctl probing_host None SENSORIOCSPOLLRATE 500 running_driver
       = Some (Inr OK, running_driver\<lparr>call := \<lparr>armed = True, delay = 1000, period = 2000\<rparr>,
                                        call_interval := 2000\<rparr>)"
proof -
  have a: "(2000 :: u32) \<notin> {SENSOR_POLLRATE_MANUAL probing_host,
        SENSOR_POLLRATE_EXTERNAL probing_host, 0,
        SENSOR_POLLRATE_MAX probing_host, SENSOR_POLLRATE_DEFAULT probing_host}"
    and b: "(250 :: u32) \<notin> {SENSOR_POLLRATE_MANUAL probing_host,
        SENSOR_POLLRATE_EXTERNAL probing_host, 0,
        SENSOR_POLLRATE_MAX probing_host, SENSOR_POLLRATE_DEFAULT probing_host}"
    and c: "(500 :: u32) \<notin> {SENSOR_POLLRATE_MANUAL probing_host,
        SENSOR_POLLRATE_EXTERNAL probing_host, 0,
        SENSOR_POLLRATE_MAX probing_host, SENSOR_POLLRATE_DEFAULT probing_host}"
    by (simp_all add: probing_host_def host_of_def)
  have ticks: "(1000000 :: u32) div 250 = 4000" "(1000000 :: u32) div 500 = 2000"
    by simp_all
  have d: "call_interval idle_driver = 0" and f: "call_interval running_driver = 4000"
    by (simp_all add: idle_driver_def running_driver_def)
  have e: "start (idle_driver\<lparr>call := (call idle_driver)\<lparr>period := 4000\<rparr>, call_interval := 4000\<rparr>)
             = idle_driver\<lparr>call := \<lparr>armed = True, delay = 1000, period = 4000\<rparr>,
                            call_interval := 4000\<rparr>"
    by (simp add: idle_driver_def start_def stop_def hrt_call_every_def hrt_cancel_def)
  have g: "(call running_driver)\<lparr>period := 2000\<rparr> = \<lparr>armed = True, delay = 1000, period = 2000\<rparr>"
    by (simp add: running_driver_def)
  show ?thesis
    using a d f setPollRate_numeric [OF a, where alloc = None and s = running_driver]
      setPollRate_numeric [OF b, where alloc = None and s = idle_driver]
      setPollRate_numeric [OF c, where alloc = None and s = running_driver]
    by (simp add: ticks e g)
qed

section \<open>Manual poll rate\<close>

text \<open>
  C3, as the claim states it, fails: on a running driver \<open>ioctl(SENSORIOCSPOLLRATE, 0)\<close>
  returns \<open>-EINVAL\<close> and the driver is still armed at its interval of 4000 microseconds.
\<close>

theorem setPollRate_zero_counterexample:
  "reachable probing_host running_driver
   \<and> ioctl probing_host None SENSORIOCSPOLLRATE 0 running_driver
       = Some (Inl EINVAL, running_driver)
   \<and> armed (call running_driver) \<and> call_interval running_driver = 4000"
proof -
  have "SENSOR_POLLRATE_MANUAL probing_host \<noteq> 0"
    by (simp add: probing_host_def host_of_def)
  then have "ioctl probing_host None SENSORIOCSPOLLRATE 0 running_driver
               = Some (Inl EINVAL, running_driver)"
    by (rule ioctl_SPOLLRATE_zero)
  then show ?thesis
    using probing_running by (simp add: running_driver_def)
qed

text \<open>
  C3, amended. The argument 0 is rejected with \<open>-EINVAL\<close> and the state is the one
  before the call; only the argument \<open>SENSOR_POLLRATE_MANUAL\<close> cancels the timer entry,
  sets the interval to 0 and returns \<open>OK\<close>, from every state.
\<close>

theorem setPollRate_zero_rejected:
  assumes "host_ok h"
  shows "ioctl h alloc SENSORIOCSPOLLRATE 0 s = Some (Inl EINVAL, s)
         \<and> ioctl h alloc SENSORIOCSPOLLRATE (SENSOR_POLLRATE_MANUAL h) s
             = Some (Inr OK, s\<lparr>call := (call s)\<lparr>armed := False\<rparr>, call_interval := 0\<rparr>)"
  using assms
  by (simp add: host_ok_def ioctl_SPOLLRATE_MANUAL ioctl_SPOLLRATE_zero stop_def hrt_cancel_def)

theorem setPollRate_zero_rejected_witness:
  "host_ok probing_host
   \<and> ioctl probing_host None SENSORIOCSPOLLRATE 0 running_driver
       = Some (Inl EINVAL, running_driver)
   \<and> ioctl probing_host None SENSORIOCSPOLLRATE 1000000 running_driver
       = Some (Inr OK, manual_driver)"
proof -
  have m: "SENSOR_POLLRATE_MANUAL probing_host = 1000000"
    by (simp add: probing_host_def host_of_def)
  have s: "running_driver\<lparr>call := (call running_driver)\<lparr>armed := False\<rparr>, call_interval := 0\<rparr>
             = manual_driver"
    by (simp add: running_driver_def manual_driver_def)
  show ?thesis
    using probing_host_ok
      setPollRate_zero_rejected [OF probing_host_ok, where alloc = None and s = running_driver]
    by (simp add: m s)
qed

section \<open>Measurement step\<close>

text \<open>
  C2, as the claim states it, fails: with a bus whose exchange returns \<open>-1\<close> the step
  moves the write cursor from 1 to 2 and publishes a second report.
\<close>

theorem measure_failed_transfer_counterexample:
  "reachable failing_host running_driver
   \<and> fst (spi_exchange failing_host (spi_log running_driver @ [accel_tx])) = - 1
   \<and> next_report running_driver = 1
   \<and> published running_driver = [report_at 0 1028]
   \<and> map_option next_report (measure failing_host running_driver) = Some 2
   \<and> map_option published (measure failing_host running_driver)
       = Some [report_at 0 1028, report_at 1000 0]"
  using failing_running
  by (simp add: measure_eq after_measure_def fresh_report_def running_driver_def failing_host_def
        failing_after_def host_of_def INCREMENT_ring3 le16_def report_at_def)

text \<open>
  C2, amended. The step does not depend on the return code of the bus transfer: with the
  same buffer content it leaves the same state whatever the code is. Whenever the write
  cursor is inside the array, and so also when the transfer failed, the step issues the
  one exchange and reads the clock once; it writes into the slot the write cursor is on
  the report stamped with that clock value and with the three axes decoded from bytes
  2 to 7 of the transfer buffer, and leaves every other slot as it is; it advances the
  write cursor, and the read cursor too when the advanced write cursor meets it; it
  notifies waiters once and publishes the report it wrote. The capacity, the timer
  entry, the interval and the advertised topic are unchanged.
\<close>

theorem measure_ignores_transfer_result:
  "measure (h\<lparr>spi_exchange := (\<lambda>log. (rc, snd (spi_exchange h log)))\<rparr>) s = measure h s
   \<and> (unat (next_report s) < length (reports s) \<longrightarrow>
        (\<exists>s' r. measure h s = Some s'
           \<and> spi_log s' = spi_log s @ [accel_tx]
           \<and> clock_reads s' = Suc (clock_reads s)
           \<and> r = (reports s ! unat (next_report s))
                   \<lparr>timestamp := hrt_clock h (clock_reads s),
                    x_raw := le16 (snd (spi_exchange h (spi_log s @ [accel_tx])) 2)
                                  (snd (spi_exchange h (spi_log s @ [accel_tx])) 3),
                    y_raw := le16 (snd (spi_exchange h (spi_log s @ [accel_tx])) 4)
                                  (snd (spi_exchange h (spi_log s @ [accel_tx])) 5),
                    z_raw := le16 (snd (spi_exchange h (spi_log s @ [accel_tx])) 6)
                                  (snd (spi_exchange h (spi_log s @ [accel_tx])) 7)\<rparr>
           \<and> reports s' = (reports s)[unat (next_report s) := r]
           \<and> next_report s' = INCREMENT (next_report s) (num_reports s)
           \<and> oldest_report s' =
               (if INCREMENT (next_report s) (num_reports s) = oldest_report s
                then INCREMENT (oldest_report s) (num_reports s) else oldest_report s)
           \<and> poll_notifies s' = Suc (poll_notifies s)
           \<and> published s' = published s @ [r]
           \<and> num_reports s' = num_reports s
           \<and> call s' = call s
           \<and> call_interval s' = call_interval s
           \<and> advertised s' = advertised s))"
  by (simp add: measure_eq after_measure_def fresh_report_def Let_def)

theorem measure_ignores_transfer_result_witness:
  "unat (next_report running_driver) < length (reports running_driver)
   \<and> measure (probing_host\<lparr>spi_exchange := (\<lambda>log. (- 1, snd (spi_exchange probing_host log)))\<rparr>)
         running_driver
       = measure probing_host running_driver
   \<and> map_option (\<lambda>s'. (reports s', next_report s', oldest_report s', poll_notifies s', published s'))
        (measure probing_host running_driver)
       = Some ([report_at 0 1028, report_at 1000 1285, report_at 0 0], 2, 0, 2,
               [report_at 0 1028, report_at 1000 1285])
   \<and> unat (next_report sampled_driver) < length (reports sampled_driver)
   \<and> measure (probing_host\<lparr>spi_exchange := (\<lambda>log. (- 1, snd (spi_exchange probing_host log)))\<rparr>)
         sampled_driver
       = measure probing_host sampled_driver
   \<and> map_option (\<lambda>s'. (reports s', next_report s', oldest_report s', poll_notifies s', published s'))
        (measure probing_host sampled_driver)
       = Some ([report_at 3000 1799, report_at 1000 1285, report_at 2000 1542], 1, 2, 4,
               [report_at 0 1028, report_at 1000 1285, report_at 2000 1542, report_at 3000 1799])"
proof -
  have a: "unat (next_report running_driver) < length (reports running_driver)"
    and b: "unat (next_report sampled_driver) < length (reports sampled_driver)"
    by (simp_all add: running_driver_def sampled_driver_def)
  have inc: "INCREMENT (next_report running_driver) (num_reports running_driver) = 2"
    "INCREMENT (next_report sampled_driver) (num_reports sampled_driver) = 1"
    "INCREMENT (oldest_report sampled_driver) (num_reports sampled_driver) = 2"
    "INCREMENT 1 (num_reports sampled_driver) = 2"
    by (simp_all add: INCREMENT_ring3 running_driver_def sampled_driver_def)
  have old: "oldest_report running_driver = 0" "oldest_report sampled_driver = 1"
    and nt: "poll_notifies running_driver = 1" "poll_notifies sampled_driver = 3"
    by (simp_all add: running_driver_def sampled_driver_def)
  have r1: "(reports running_driver ! unat (next_report running_driver))
              \<lparr>timestamp := hrt_clock probing_host (clock_reads running_driver),
               x_raw := le16 (snd (spi_exchange probing_host (spi_log running_driver @ [accel_tx])) 2)
                             (snd (spi_exchange probing_host (spi_log running_driver @ [accel_tx])) 3),
               y_raw := le16 (snd (spi_exchange probing_host (spi_log running_driver @ [accel_tx])) 4)
                             (snd (spi_exchange probing_host (spi_log running_driver @ [accel_tx])) 5),
               z_raw := le16 (snd (spi_exchange probing_host (spi_log running_driver @ [accel_tx])) 6)
                             (snd (spi_exchange probing_host (spi_log running_driver @ [accel_tx])) 7)\<rparr>
            = report_at 1000 1285"
    by (simp add: running_driver_def probing_host_def probing_bus_def bus_seq_def host_of_def
          le16_def report_at_def)
  have r2: "(reports sampled_driver ! unat (next_report sampled_driver))
              \<lparr>timestamp := hrt_clock probing_host (clock_reads sampled_driver),
               x_raw := le16 (snd (spi_exchange probing_host (spi_log sampled_driver @ [accel_tx])) 2)
                             (snd (spi_exchange probing_host (spi_log sampled_driver @ [accel_tx])) 3),
               y_raw := le16 (snd (spi_exchange probing_host (spi_log sampled_driver @ [accel_tx])) 4)
                             (snd (spi_exchange probing_host (spi_log sampled_driver @ [accel_tx])) 5),
               z_raw := le16 (snd (spi_exchange probing_host (spi_log sampled_driver @ [accel_tx])) 6)
                             (snd (spi_exchange probing_host (spi_log sampled_driver @ [accel_tx])) 7)\<rparr>
            = report_at 3000 1799"
    by (simp add: sampled_driver_def probing_host_def probing_bus_def bus_seq_def host_of_def
          le16_def report_at_def)
  have w1: "(reports running_driver)[unat (next_report running_driver) := report_at 1000 1285]
              = [report_at 0 1028, report_at 1000 1285, report_at 0 0]"
    and p1: "published running_driver = [report_at 0 1028]"
    by (simp_all add: running_driver_def)
  have w2: "(reports sampled_driver)[unat (next_report sampled_driver) := report_at 3000 1799]
              = [report_at 3000 1799, report_at 1000 1285, report_at 2000 1542]"
    and p2: "published sampled_driver = [report_at 0 1028, report_at 1000 1285, report_at 2000 1542]"
    by (simp_all add: sampled_driver_def)
  show ?thesis
    using a b
      measure_ignores_transfer_result [where h = probing_host and rc = "- 1" and s = running_driver]
      measure_ignores_transfer_result [where h = probing_host and rc = "- 1" and s = sampled_driver]
    unfolding r1 r2
    by (auto simp add: inc old nt w1 w2 p1 p2)
qed

section \<open>Manual reads\<close>

text \<open>
  C5. With the interval at 0, an allocated ring and a buffer of at least one report,
  \<open>read\<close> is one \<open>measure\<close> from cursors reset to zero: one bus exchange, one clock
  read, one published report. It returns the size of one report and puts that report,
  stamped with the clock value of this call and decoded from the bytes of this exchange,
  into the first slot of the caller's buffer. Neither the cursors nor the unread reports
  of the ring before the call enter the result.
\<close>

theorem manual_read_is_one_measurement:
  assumes "call_interval s = 0" and "reports s \<noteq> []"
    and "0 < sizeof_accel_report h" and "sizeof_accel_report h \<le> buflen"
  shows "\<exists>s' r. measure h (s\<lparr>oldest_report := 0, next_report := 0\<rparr>) = Some s'
           \<and> read h buffer buflen s = Some (Inr (uint (sizeof_accel_report h)), buffer[0 := r], s')
           \<and> r = (hd (reports s))\<lparr>timestamp := hrt_clock h (clock_reads s),
                    x_raw := le16 (snd (spi_exchange h (spi_log s @ [accel_tx])) 2)
                                  (snd (spi_exchange h (spi_log s @ [accel_tx])) 3),
                    y_raw := le16 (snd (spi_exchange h (spi_log s @ [accel_tx])) 4)
                                  (snd (spi_exchange h (spi_log s @ [accel_tx])) 5),
                    z_raw := le16 (snd (spi_exchange h (spi_log s @ [accel_tx])) 6)
                                  (snd (spi_exchange h (spi_log s @ [accel_tx])) 7)\<rparr>
           \<and> spi_log s' = spi_log s @ [accel_tx]
           \<and> clock_reads s' = Suc (clock_reads s)
           \<and> published s' = published s @ [r]
           \<and> poll_notifies s' = Suc (poll_notifies s)"
proof -
  obtain r0 rs where rs: "reports s = r0 # rs"
    using assms(2) by (cases "reports s") auto
  have cnt: "\<not> buflen div sizeof_accel_report h < 1"
    using assms(3,4) by (rule count_ge_1)
  show ?thesis
    using assms(1) cnt rs
    by (simp add: read_def measure_eq after_measure_def fresh_report_def Let_def)
qed

theorem manual_read_is_one_measurement_witness:
  "call_interval manual_driver = 0 \<and> reports manual_driver \<noteq> []
   \<and> 0 < sizeof_accel_report probing_host
   \<and> sizeof_accel_report probing_host \<le> 100
   \<and> map_option (\<lambda>(r, b, s'). (r, b, spi_log s', published s'))
        (read probing_host [report_at 9 9, report_at 8 8] 100 manual_driver)
       = Some (Inr 40, [report_at 1000 1285, report_at 8 8],
               [who_tx, who_tx, ctrl_tx, accel_tx, accel_tx],
               [report_at 0 1028, report_at 1000 1285])"
proof -
  have a: "call_interval manual_driver = 0" and b: "reports manual_driver \<noteq> []"
    by (simp_all add: manual_driver_def)
  have c: "0 < sizeof_accel_report probing_host"
    and d: "sizeof_accel_report probing_host \<le> 100"
    by (simp_all add: probing_host_def host_of_def)
  show ?thesis
    using a b c d
      manual_read_is_one_measurement [OF a b c d, where buffer = "[report_at 9 9, report_at 8 8]"]
    by (auto simp add: manual_driver_def probing_host_def probing_bus_def bus_seq_def host_of_def
          le16_def report_at_def)
qed

section \<open>Cursor validity\<close>

text \<open>
  C10. In every state of a run (after a successful \<open>init\<close> and any sequence of reads,
  ticks, \<open>start\<close>, \<open>stop\<close> and \<open>ioctl\<close> calls) both cursors are below
  \<open>_num_reports\<close>, which is the length of the report array, and neither \<open>measure\<close> nor
  \<open>read\<close> leaves the array.
\<close>

theorem cursors_in_bounds:
  assumes "reachable h s"
  shows "next_report s < num_reports s \<and> oldest_report s < num_reports s
         \<and> unat (num_reports s) = length (reports s)
         \<and> measure h s \<noteq> None \<and> read h buffer buflen s \<noteq> None"
proof -
  have ok: "ring_ok s"
    using assms by (rule reachable_ok)
  then show ?thesis
    using read_ok [OF ok, of h buffer buflen]
    by (auto simp add: ring_ok_def measure_ok)
qed

theorem cursors_in_bounds_witness:
  "reachable probing_host sampled_driver
   \<and> next_report sampled_driver < num_reports sampled_driver
   \<and> oldest_report sampled_driver < num_reports sampled_driver
   \<and> num_reports sampled_driver = 3 \<and> length (reports sampled_driver) = 3"
  using probing_sampled cursors_in_bounds [OF probing_sampled]
  by (simp add: sampled_driver_def)

section \<open>The ring as a queue\<close>

text \<open>
  Arithmetic of the two cursors, then the two operations on the list of unread reports:
  a measurement step appends the new report and drops the oldest one when the ring
  already holds \<open>N - 1\<close>, and the loop of \<open>read\<close> takes reports from the front.
\<close>

lemma mod_lt2: "x < 2 * N \<Longrightarrow> x mod N = (if x < N then x else x - N)" for x N :: nat
  by (auto simp add: not_less le_mod_geq)

lemma ring_count_if:
  "ol < N \<Longrightarrow> nx < N \<Longrightarrow> ring_count N ol nx = (if ol \<le> nx then nx - ol else nx + N - ol)"
  by (auto simp add: ring_count_def mod_lt2)

lemma ring_count_less: "0 < N \<Longrightarrow> ring_count N ol nx < N"
  by (simp add: ring_count_def)

lemma Suc_mod_if: "x < N \<Longrightarrow> Suc x mod N = (if Suc x = N then 0 else Suc x)"
  by (auto simp add: mod_lt2)

lemma ring_count_empty: "ol < N \<Longrightarrow> nx < N \<Longrightarrow> ring_count N ol nx = 0 \<longleftrightarrow> ol = nx"
  by (auto simp add: ring_count_if)

lemma ring_count_full:
  "ol < N \<Longrightarrow> nx < N \<Longrightarrow> ring_count N ol nx = N - 1 \<longleftrightarrow> Suc nx mod N = ol"
  by (auto simp add: ring_count_if Suc_mod_if)

lemma ring_count_push:
  "ol < N \<Longrightarrow> nx < N \<Longrightarrow> Suc nx mod N \<noteq> ol \<Longrightarrow>
     ring_count N ol (Suc nx mod N) = Suc (ring_count N ol nx)"
  by (auto simp add: ring_count_if Suc_mod_if split: if_splits)

lemma ring_count_pop:
  "ol < N \<Longrightarrow> nx < N \<Longrightarrow> ol \<noteq> nx \<Longrightarrow>
     ring_count N ol nx = Suc (ring_count N (Suc ol mod N) nx)"
  by (auto simp add: ring_count_if Suc_mod_if split: if_splits)

lemma ring_last_slot: "ol < N \<Longrightarrow> nx < N \<Longrightarrow> (ol + ring_count N ol nx) mod N = nx"
  by (auto simp add: ring_count_if mod_lt2)

lemma ring_slot_inj:
  "ol < N \<Longrightarrow> nx < N \<Longrightarrow> k < ring_count N ol nx \<Longrightarrow> (ol + k) mod N \<noteq> nx"
  by (auto simp add: ring_count_if mod_lt2 split: if_splits)

lemma ring_slots_empty: "ring_slots N ol ol = []" if "ol < N"
  using that by (simp add: ring_slots_def ring_count_if)

lemma ring_slots_pop:
  assumes "ol < N" and "nx < N" and "ol \<noteq> nx"
  shows "ring_slots N ol nx = ol # ring_slots N (Suc ol mod N) nx"
proof -
  have "(\<lambda>k. (ol + Suc k) mod N) = (\<lambda>k. (Suc ol mod N + k) mod N)"
    by (simp add: mod_simps)
  then show ?thesis
    using assms
    by (simp add: ring_slots_def ring_count_pop [OF assms] map_upt_Suc del: upt_Suc)
qed

lemma ring_slots_push:
  assumes "ol < N" and "nx < N" and "Suc nx mod N \<noteq> ol"
  shows "ring_slots N ol (Suc nx mod N) = ring_slots N ol nx @ [nx]"
  using assms
  by (simp add: ring_slots_def ring_count_push [OF assms] ring_last_slot)

lemma ring_slots_push_full:
  assumes "ol < N" and "nx < N" and "Suc nx mod N = ol" and "2 \<le> N"
  shows "ring_slots N (Suc ol mod N) (Suc nx mod N) = tl (ring_slots N ol nx) @ [nx]"
proof -
  have ne: "ol \<noteq> nx"
    using assms by (auto simp add: Suc_mod_if split: if_splits)
  have lt: "Suc ol mod N < N"
    using assms by simp
  have ne': "Suc nx mod N \<noteq> Suc ol mod N"
    using assms by (auto simp add: Suc_mod_if split: if_splits)
  have "tl (ring_slots N ol nx) = ring_slots N (Suc ol mod N) nx"
    by (simp add: ring_slots_pop [OF assms(1,2) ne])
  then show ?thesis
    by (simp add: ring_slots_push [OF lt assms(2) ne'])
qed

lemma ring_slots_not_next: "ol < N \<Longrightarrow> nx < N \<Longrightarrow> nx \<notin> set (ring_slots N ol nx)"
  by (auto simp add: ring_slots_def dest: ring_slot_inj)

lemma length_ring_slots: "length (ring_slots N ol nx) = ring_count N ol nx"
  by (simp add: ring_slots_def)

lemma unat_INCREMENT:
  assumes "x < lim"
  shows "unat (INCREMENT x lim) = Suc (unat x) mod unat lim"
proof -
  have lt: "unat x < unat lim"
    using assms by (simp add: word_less_nat_alt)
  have "x \<noteq> - 1"
    using assms by (metis word_order.extremum_strict)
  then have inc: "unat (x + 1) = Suc (unat x)"
    by (simp add: unat_inc)
  show ?thesis
    using lt inc by (auto simp add: INCREMENT_def Let_def word_le_nat_alt Suc_mod_if)
qed

lemma INCREMENT_eq_iff:
  assumes "x < lim"
  shows "INCREMENT x lim = y \<longleftrightarrow> Suc (unat x) mod unat lim = unat y"
  using unat_INCREMENT [OF assms] by (metis word_unat_eq_iff)

lemma unread_after_measure:
  assumes ok: "ring_ok s" and cap: "1 < num_reports s"
  shows "unread (after_measure h s) =
           (if length (unread s) = unat (num_reports s) - 1 then tl (unread s) else unread s)
           @ [fresh_report h s]"
proof -
  let ?N = "unat (num_reports s)" and ?o = "unat (oldest_report s)" and ?n = "unat (next_report s)"
  have o: "?o < ?N" and n: "?n < ?N" and len: "length (reports s) = ?N"
    using ok by (simp_all add: ring_ok_def word_less_nat_alt)
  have N2: "2 \<le> ?N"
    using cap by (simp add: word_less_nat_alt)
  have nxt: "next_report s < num_reports s" and old: "oldest_report s < num_reports s"
    using ok by (simp_all add: ring_ok_def)
  have keep: "(reports s)[?n := fresh_report h s] ! i = reports s ! i"
    if "i \<in> set (ring_slots ?N ?o ?n)" for i
    using that ring_slots_not_next [OF o n] by (intro nth_list_update_neq) auto
  have wr: "(reports s)[?n := fresh_report h s] ! ?n = fresh_report h s"
    using n len by simp
  show ?thesis
  proof (cases "Suc ?n mod ?N = ?o")
    case True
    then have full: "length (unread s) = ?N - 1"
      using ring_count_full [OF o n] by (simp add: unread_def length_ring_slots)
    have inc: "INCREMENT (next_report s) (num_reports s) = oldest_report s"
      using True by (simp add: INCREMENT_eq_iff [OF nxt])
    have keep': "(reports s)[?n := fresh_report h s] ! i = reports s ! i"
      if "i \<in> set (tl (ring_slots ?N ?o ?n))" for i
      using that keep [of i] by (cases "ring_slots ?N ?o ?n") auto
    have "unread (after_measure h s) =
            map (\<lambda>i. (reports s)[?n := fresh_report h s] ! i) (tl (ring_slots ?N ?o ?n) @ [?n])"
      using ring_slots_push_full [OF o n True N2]
      by (simp add: unread_def after_measure_def inc unat_INCREMENT [OF nxt] unat_INCREMENT [OF old] True)
    also have "\<dots> = map (\<lambda>i. reports s ! i) (tl (ring_slots ?N ?o ?n)) @ [fresh_report h s]"
      using keep' wr by (simp cong: map_cong)
    finally show ?thesis
      using full by (simp add: unread_def map_tl)
  next
    case False
    then have nfull: "length (unread s) \<noteq> ?N - 1"
      using ring_count_full [OF o n] by (simp add: unread_def length_ring_slots)
    have inc: "INCREMENT (next_report s) (num_reports s) \<noteq> oldest_report s"
      using False by (simp add: INCREMENT_eq_iff [OF nxt])
    have "unread (after_measure h s) =
            map (\<lambda>i. (reports s)[?n := fresh_report h s] ! i) (ring_slots ?N ?o ?n @ [?n])"
      using ring_slots_push [OF o n False]
      by (simp add: unread_def after_measure_def inc unat_INCREMENT [OF nxt])
    also have "\<dots> = map (\<lambda>i. reports s ! i) (ring_slots ?N ?o ?n) @ [fresh_report h s]"
      using keep wr by (simp cong: map_cong)
    finally show ?thesis
      using nfull by (simp add: unread_def)
  qed
qed

lemma length_unread: "ring_ok s \<Longrightarrow> length (unread s) \<le> unat (num_reports s) - 1"
proof -
  assume "ring_ok s"
  then have "0 < unat (num_reports s)"
    using ring_ok_pos [of s] by (simp add: word_less_nat_alt)
  then have "ring_count (unat (num_reports s)) (unat (oldest_report s)) (unat (next_report s))
               < unat (num_reports s)"
    by (rule ring_count_less)
  then show ?thesis
    by (simp add: unread_def length_ring_slots)
qed

lemma unread_empty: "ring_ok s \<Longrightarrow> oldest_report s = next_report s \<Longrightarrow> unread s = []"
  by (simp add: unread_def ring_ok_def word_less_nat_alt ring_slots_empty)

lemma unread_pop:
  assumes ok: "ring_ok s" and ne: "oldest_report s \<noteq> next_report s"
  shows "unread s = reports s ! unat (oldest_report s)
           # unread (s\<lparr>oldest_report := INCREMENT (oldest_report s) (num_reports s)\<rparr>)"
proof -
  have o: "unat (oldest_report s) < unat (num_reports s)"
    and n: "unat (next_report s) < unat (num_reports s)"
    and old: "oldest_report s < num_reports s"
    using ok by (simp_all add: ring_ok_def word_less_nat_alt)
  have "unat (oldest_report s) \<noteq> unat (next_report s)"
    using ne by (simp add: word_unat_eq_iff)
  then show ?thesis
    by (simp add: unread_def ring_slots_pop [OF o n] unat_INCREMENT [OF old])
qed

lemma pop_ok:
  "ring_ok s \<Longrightarrow> ring_ok (s\<lparr>oldest_report := INCREMENT (oldest_report s) (num_reports s)\<rparr>)"
  using ring_ok_pos [of s] by (simp add: ring_ok_def INCREMENT_less)

lemma read_loop_unread:
  assumes "ring_ok s"
  shows "\<exists>s'. read_loop sz k (s, buf, ret) =
              Some (s',
                    (if min k (length (unread s)) = 0 then buf
                     else buf[0 := unread s ! (min k (length (unread s)) - 1)]),
                    ret + sz * int (min k (length (unread s))))
           \<and> ring_ok s' \<and> unread s' = drop k (unread s)
           \<and> s' = s\<lparr>oldest_report := oldest_report s'\<rparr>"
  using assms
proof (induction k arbitrary: s buf ret)
  case 0
  then show ?case by simp
next
  case (Suc k)
  show ?case
  proof (cases "oldest_report s = next_report s")
    case True
    then have "unread s = []"
      using Suc.prems by (simp add: unread_empty)
    then show ?thesis
      using Suc.IH [OF Suc.prems, of buf ret] True by simp
  next
    case False
    let ?s1 = "s\<lparr>oldest_report := INCREMENT (oldest_report s) (num_reports s)\<rparr>"
    let ?u = "reports s ! unat (oldest_report s)"
    have u: "unread s = ?u # unread ?s1"
      using Suc.prems False by (rule unread_pop)
    have ok1: "ring_ok ?s1"
      using Suc.prems by (rule pop_ok)
    have slot: "unat (oldest_report s) < length (reports s)"
      using Suc.prems by (rule ring_ok_oldest_slot)
    obtain s' where
      loop: "read_loop sz k (?s1, buf[0 := ?u], ret + sz) =
               Some (s',
                     (if min k (length (unread ?s1)) = 0 then buf[0 := ?u]
                      else buf[0 := ?u, 0 := unread ?s1 ! (min k (length (unread ?s1)) - 1)]),
                     ret + sz + sz * int (min k (length (unread ?s1))))"
      and ok': "ring_ok s'" and rest: "unread s' = drop k (unread ?s1)"
      and same: "s' = ?s1\<lparr>oldest_report := oldest_report s'\<rparr>"
      using Suc.IH [OF ok1, of "buf[0 := ?u]" "ret + sz"] by blast
    have step: "read_loop sz (Suc k) (s, buf, ret) = read_loop sz k (?s1, buf[0 := ?u], ret + sz)"
      using False slot by simp
    have same': "s' = s\<lparr>oldest_report := oldest_report s'\<rparr>"
      using same by (metis lsm303d.update_convs(5) lsm303d.surjective)
    have ret': "ret + sz + sz * int (min k (length (unread ?s1)))
                  = ret + sz * int (min (Suc k) (length (unread s)))"
      by (simp add: u algebra_simps)
    have buf': "(if min k (length (unread ?s1)) = 0 then buf[0 := ?u]
                 else buf[0 := ?u, 0 := unread ?s1 ! (min k (length (unread ?s1)) - 1)])
                = (if min (Suc k) (length (unread s)) = 0 then buf
                   else buf[0 := unread s ! (min (Suc k) (length (unread s)) - 1)])"
    proof (cases "min k (length (unread ?s1))")
      case 0
      then show ?thesis by (simp add: u)
    next
      case (Suc m)
      then show ?thesis by (simp add: u)
    qed
    show ?thesis
      unfolding step loop ret' buf'
      using ok' rest same' by (simp add: u)
  qed
qed

lemma measure_overwrites_oldest:
  assumes "ring_ok s" and "1 < num_reports s"
  shows "\<exists>s'. measure h s = Some s'
           \<and> unread s' =
               (if length (unread s) = unat (num_reports s) - 1 then tl (unread s) else unread s)
               @ [fresh_report h s]
           \<and> length (unread s') \<le> unat (num_reports s') - 1
           \<and> num_reports s' = num_reports s"
proof (intro exI [of _ "after_measure h s"] conjI)
  show "measure h s = Some (after_measure h s)"
    using assms(1) by (rule measure_ok)
  show "unread (after_measure h s) =
          (if length (unread s) = unat (num_reports s) - 1 then tl (unread s) else unread s)
          @ [fresh_report h s]"
    using assms by (rule unread_after_measure)
  show "length (unread (after_measure h s)) \<le> unat (num_reports (after_measure h s)) - 1"
    using after_measure_ok [OF assms(1)] by (rule length_unread)
  show "num_reports (after_measure h s) = num_reports s"
    by (simp add: after_measure_def)
qed

lemma read_automatic:
  assumes ok: "ring_ok s" and auto: "0 < call_interval s"
    and sz: "0 < sizeof_accel_report h" "sizeof_accel_report h \<le> buflen"
  shows "\<exists>s'. read h buffer buflen s =
              Some (if min (unat (buflen div sizeof_accel_report h)) (length (unread s)) = 0
                    then Inl EAGAIN
                    else Inr (uint (sizeof_accel_report h)
                            * int (min (unat (buflen div sizeof_accel_report h)) (length (unread s)))),
                    (if min (unat (buflen div sizeof_accel_report h)) (length (unread s)) = 0
                     then buffer
                     else buffer[0 := unread s
                            ! (min (unat (buflen div sizeof_accel_report h)) (length (unread s)) - 1)]),
                    s')
           \<and> unread s' = drop (unat (buflen div sizeof_accel_report h)) (unread s)"
proof -
  let ?k = "unat (buflen div sizeof_accel_report h)"
  obtain s' where
    loop: "read_loop (uint (sizeof_accel_report h)) ?k (s, buffer, 0) =
             Some (s',
                   (if min ?k (length (unread s)) = 0 then buffer
                    else buffer[0 := unread s ! (min ?k (length (unread s)) - 1)]),
                   0 + uint (sizeof_accel_report h) * int (min ?k (length (unread s))))"
    and rest: "unread s' = drop ?k (unread s)"
    using read_loop_unread [OF ok, of "uint (sizeof_accel_report h)" ?k buffer 0] by blast
  have cnt: "\<not> buflen div sizeof_accel_report h < 1"
    using sz by (rule count_ge_1)
  have pos: "0 < uint (sizeof_accel_report h)"
    using sz(1) by (simp add: word_less_def)
  have auto': "call_interval s \<noteq> 0"
    using auto by auto
  show ?thesis
    using cnt pos auto' rest
    by (simp add: read_def Let_def loop word_gt_0)
qed

lemma read_loop_capacity:
  "read_loop sz k (s, buf, ret) = Some (s', b, r) \<Longrightarrow> num_reports s' = num_reports s"
proof (induction k arbitrary: s buf ret)
  case 0
  then show ?case by simp
next
  case (Suc k)
  show ?case
  proof (cases "oldest_report s \<noteq> next_report s")
    case True
    then have "read_loop sz k
                 (s\<lparr>oldest_report := INCREMENT (oldest_report s) (num_reports s)\<rparr>,
                  buf[0 := reports s ! unat (oldest_report s)], ret + sz) = Some (s', b, r)"
      using Suc.prems by (simp split: if_splits)
    then show ?thesis
      using Suc.IH by fastforce
  next
    case False
    then show ?thesis
      using Suc.prems Suc.IH by simp
  qed
qed

lemma read_capacity:
  "read h buffer buflen s = Some (r, b, s') \<Longrightarrow> num_reports s' = num_reports s"
  by (auto simp add: read_def Let_def measure_eq after_measure_def
      split: if_splits option.splits list.splits dest: read_loop_capacity)

lemma ioctl_capacity:
  "ioctl h alloc cmd arg s = Some y \<Longrightarrow> 1 < num_reports s \<longrightarrow> 1 < num_reports (snd y)"
proof (induction rule: ioctl.raw_induct [rotated 1, consumes 1])
  case (1 ioctl' h alloc cmd arg s y)
  have two: "\<not> arg + 1 < 2 \<Longrightarrow> 1 < arg + 1"
    by (simp add: word_less_nat_alt)
  show ?case
  proof (cases cmd)
    case SENSORIOCSPOLLRATE
    then show ?thesis
      using 1 by (auto simp add: Let_def start_def stop_def split: if_splits)
  next
    case SENSORIOCSQUEUEDEPTH
    then show ?thesis
      using 1(2) two
      by (auto simp add: Let_def start_def stop_def split: if_splits option.splits)
  qed (use 1(2) in \<open>auto split: if_splits\<close>)
qed

lemma exec_capacity: "1 < num_reports s \<Longrightarrow> exec h opn s = Some s' \<Longrightarrow> 1 < num_reports s'"
proof (cases opn)
  case (Read buffer buflen)
  assume "1 < num_reports s" and "exec h opn s = Some s'"
  then show ?thesis
    using Read by (auto dest: read_capacity)
next
  case Measure
  assume "1 < num_reports s" and "exec h opn s = Some s'"
  then show ?thesis
    using Measure by (auto simp add: measure_eq after_measure_def split: if_splits)
next
  case Start
  assume "1 < num_reports s" and "exec h opn s = Some s'"
  then show ?thesis
    using Start by (auto simp add: start_def stop_def)
next
  case Stop
  assume "1 < num_reports s" and "exec h opn s = Some s'"
  then show ?thesis
    using Stop by (auto simp add: stop_def)
next
  case (Ioctl alloc cmd arg)
  assume "1 < num_reports s" and "exec h opn s = Some s'"
  then show ?thesis
    using Ioctl ioctl_capacity [of h alloc cmd arg s] by auto
qed

lemma init_capacity: "init h alloc LSM303D = (Inr OK, s) \<Longrightarrow> 1 < num_reports s"
  by (cases alloc)
     (auto simp add: init_eq probe_state write_reg_state orb_advertise_def LSM303D_def
        split: if_splits)

lemma reachable_capacity: "reachable h s \<Longrightarrow> 1 < num_reports s"
  by (induction rule: reachable.induct) (auto intro: init_capacity exec_capacity)

lemma ring_in_runs:
  assumes "reachable h s"
  shows "\<exists>s'. measure h s = Some s'
           \<and> unread s' =
               (if length (unread s) = unat (num_reports s) - 1 then tl (unread s) else unread s)
               @ [fresh_report h s]
           \<and> length (unread s') \<le> unat (num_reports s') - 1
           \<and> num_reports s' = num_reports s"
  using reachable_ok [OF assms] reachable_capacity [OF assms]
  by (rule measure_overwrites_oldest)

text \<open>The session \<open>sampling_ops\<close> and the unread reports it leaves.\<close>

lemma sampling_run:
  "run probing_host sampling_ops (snd (init probing_host (Some blank_ring) LSM303D))
     = Some sampled_driver"
proof -
  have parts: "sampling_ops = configure_ops @ [Measure] @ [Measure, Measure]"
    by (simp add: sampling_ops_def)
  have 1: "snd (init probing_host (Some blank_ring) LSM303D) = idle_driver"
    unfolding probing_host_def by (subst boot) simp_all
  have 2: "run probing_host configure_ops idle_driver = Some started_driver"
    unfolding probing_host_def by (rule configure)
  have 3: "run probing_host [Measure] started_driver = Some running_driver"
    unfolding probing_host_def by (rule first_tick) simp
  show ?thesis
    by (simp only: parts run_append 1 2 3 more_ticks option.case)
qed

lemma sampled_unread: "unread sampled_driver = [report_at 1000 1285, report_at 2000 1542]"
  by (simp add: unread_def ring_slots_def ring_count_def upt_two sampled_driver_def)

section \<open>Report ring\<close>

text \<open>
  C1, at an input where the code departs from the claim. The ring keeps at most \<open>N - 1\<close>
  unread reports and drops the oldest first (\<open>measure_overwrites_oldest\<close>), and the loop
  of \<open>read\<close> moves the read cursor over them in that order (\<open>read_loop_unread\<close>). What
  the caller receives is different. After \<open>init\<close>, a queue depth of 2 (three slots)
  and a poll rate of 250 Hz, three ticks write the reports with raw values 1028, 1285 and
  1542, and the last two are the unread ones. A \<open>read\<close> into a buffer of two slots
  returns the size of two reports, but the buffer holds the newest report in its first
  slot and its second slot is untouched: every copy of the loop goes to the start of the
  buffer.
\<close>

theorem read_keeps_only_last_report:
  "fst (init probing_host (Some blank_ring) LSM303D) = Inr OK
   \<and> map_option unread
        (run probing_host sampling_ops (snd (init probing_host (Some blank_ring) LSM303D)))
       = Some [report_at 1000 1285, report_at 2000 1542]
   \<and> map_option (\<lambda>(r, b, s'). (r, b))
        (case run probing_host sampling_ops (snd (init probing_host (Some blank_ring) LSM303D)) of
           None \<Rightarrow> None
         | Some s \<Rightarrow> read probing_host [report_at 9 9, report_at 9 9] 80 s)
       = Some (Inr 80, [report_at 2000 1542, report_at 9 9])"
proof -
  have count: "\<And>st. read_loop 40 2 st = read_loop 40 (Suc (Suc 0)) st"
    by (simp add: numeral_2_eq_2)
  have sz: "sizeof_accel_report probing_host = 40"
    by (simp add: probing_host_def host_of_def)
  have ok: "fst (init probing_host (Some blank_ring) LSM303D) = Inr OK"
    unfolding probing_host_def by (subst boot) simp_all
  have rd: "read probing_host [report_at 9 9, report_at 9 9] 80 sampled_driver
              = Some (Inr 80, [report_at 2000 1542, report_at 9 9],
                      sampled_driver\<lparr>oldest_report := 0\<rparr>)"
    by (simp add: read_def sz count INCREMENT_ring3 Let_def sampled_driver_def)
  show ?thesis
    unfolding sampling_run
    by (simp add: ok sampled_unread rd)
qed

end
